theory Spec2Isabelle
  imports Complex_Main "HOL-Library.Char_ord" "HOL-Library.List_Lexorder"
begin

section \<open>Tables\<close>

text \<open>
  The pipeline of \<^verbatim>\<open>scripts/pipeline.py\<close> works on pandas data frames. A cell is
  what pandas can hold in an object, integer or float column: Python's \<^verbatim>\<open>None\<close>,
  the float \<^verbatim>\<open>nan\<close>, a string, an integer or a float. A float is represented by
  the rational number it denotes; rounding to 64 bits is outside the model. Strings
  are lists of code points below 256.
\<close>

datatype cell = NoneV | NaN | StrV string | IntV int | FloatV rat

text \<open>
  A frame is its column labels and its rows, every row holding one cell per column.
  The row index of pandas is not modelled: every frame the pipeline keeps is built with
  \<^verbatim>\<open>ignore_index=True\<close> or written with \<^verbatim>\<open>index=False\<close>.
\<close>

record frame =
  columns :: "string list"
  rows :: "cell list list"

text \<open>\<^verbatim>\<open>pd.DataFrame()\<close>: no columns and no rows.\<close>

definition empty_frame :: frame where
  "empty_frame = \<lparr>columns = [], rows = []\<rparr>"

text \<open>
  The frames pandas can read from a CSV file or from a parquet file: distinct labels,
  one cell per label in every row, and no row without a column.
\<close>

definition wf_frame :: "frame \<Rightarrow> bool" where
  "wf_frame f \<longleftrightarrow>
     distinct (columns f) \<and> list_all (\<lambda>r. length r = length (columns f)) (rows f) \<and>
     (columns f = [] \<longrightarrow> rows f = [])"

datatype error = KeyError | ValueError | AttributeError

text \<open>The cell of row \<open>r\<close> under label \<open>c\<close>; a label the frame lacks reads as missing.\<close>

definition get_cell :: "string list \<Rightarrow> cell list \<Rightarrow> string \<Rightarrow> cell" where
  "get_cell cols r c = (case map_of (zip cols r) c of None \<Rightarrow> NaN | Some v \<Rightarrow> v)"

text \<open>
  \<^verbatim>\<open>pd.concat(frames, ignore_index=True, sort=False)\<close>: the labels are the union
  of the frames' labels in order of first appearance; the rows follow frame by frame,
  each reindexed to the union, a cell of a column its frame lacks being \<^verbatim>\<open>nan\<close>.
  This is pandas on frames whose labels are distinct; on a frame with a repeated label
  pandas can raise where this function returns a frame.
\<close>

definition union_columns :: "frame list \<Rightarrow> string list" where
  "union_columns fs =
     foldl (\<lambda>acc f. acc @ filter (\<lambda>c. c \<notin> set acc) (columns f)) [] fs"

definition reindex :: "string list \<Rightarrow> frame \<Rightarrow> cell list list" where
  "reindex cols f = map (\<lambda>r. map (get_cell (columns f) r) cols) (rows f)"

definition concat_frames :: "frame list \<Rightarrow> frame" where
  "concat_frames fs =
     \<lparr>columns = union_columns fs,
      rows = concat (map (reindex (union_columns fs)) fs)\<rparr>"

subsection \<open>Keys and deduplication\<close>

text \<open>
  \<^verbatim>\<open>drop_duplicates\<close> and \<^verbatim>\<open>merge\<close> compare key cells after factorising
  them: \<^verbatim>\<open>None\<close> and \<^verbatim>\<open>nan\<close> are one missing value, and an integer equals
  the float of the same value.
\<close>

datatype keyval = KMissing | KStr string | KNum rat

fun key_val :: "cell \<Rightarrow> keyval" where
  "key_val NoneV = KMissing"
| "key_val NaN = KMissing"
| "key_val (StrV s) = KStr s"
| "key_val (IntV i) = KNum (of_int i)"
| "key_val (FloatV q) = KNum q"

definition row_key :: "string list \<Rightarrow> string list \<Rightarrow> cell list \<Rightarrow> keyval list" where
  "row_key cols key_cols r = map (\<lambda>c. key_val (get_cell cols r c)) key_cols"

text \<open>\<^verbatim>\<open>keep='last'\<close>: a row stays when no later row has its key.\<close>

fun keep_last :: "('a \<Rightarrow> 'k) \<Rightarrow> 'a list \<Rightarrow> 'a list" where
  "keep_last k [] = []"
| "keep_last k (r # rs) =
     (if k r \<in> set (map k rs) then keep_last k rs else r # keep_last k rs)"

text \<open>
  \<^verbatim>\<open>df.drop_duplicates(subset=key_cols, keep='last')\<close>. pandas returns a copy of
  an empty frame (no row or no column) before it looks at the subset, and raises
  \<^verbatim>\<open>KeyError\<close> for a subset label that is not a column.
\<close>

definition drop_duplicates_last :: "string list \<Rightarrow> frame \<Rightarrow> error + frame" where
  "drop_duplicates_last key_cols f =
     (if rows f = [] \<or> columns f = [] then Inr f
      else if \<not> set key_cols \<subseteq> set (columns f) then Inl KeyError
      else Inr (f\<lparr>rows := keep_last (row_key (columns f) key_cols) (rows f)\<rparr>))"

subsection \<open>The upsert store\<close>

text \<open>
  \<^verbatim>\<open>upsert_parquet(df, out_path, key_cols)\<close>. The file at \<^verbatim>\<open>out_path\<close> is
  \<open>Some existing\<close> when it exists and \<open>None\<close> otherwise; writing a frame to parquet
  and reading it back is the identity on frames. The function returns the frame it has
  written, which is the new content of the file; when it raises, the file is left as it
  was.
\<close>

definition upsert_parquet :: "frame \<Rightarrow> frame option \<Rightarrow> string list \<Rightarrow> error + frame" where
  "upsert_parquet df out_path key_cols =
     (case out_path of
        Some existing \<Rightarrow> drop_duplicates_last key_cols (concat_frames [existing, df])
      | None \<Rightarrow> Inr df)"

definition ex_keys :: "string list" where
  "ex_keys = [''country_id'', ''year'']"

definition ex_prior :: frame where
  "ex_prior = \<lparr>columns = [''country_id'', ''year'', ''gold''],
               rows = [[StrV ''fr'', IntV 2000, IntV 1], [StrV ''de'', IntV 2000, IntV 5]]\<rparr>"

definition ex_batch :: frame where
  "ex_batch = \<lparr>columns = [''country_id'', ''year'', ''silver''],
               rows = [[StrV ''fr'', IntV 2000, IntV 2], [StrV ''it'', IntV 2004, IntV 7],
                       [StrV ''fr'', IntV 2000, IntV 3]]\<rparr>"

definition ex_dup :: frame where
  "ex_dup = \<lparr>columns = [''country_id'', ''year'', ''gold''],
             rows = [[StrV ''fr'', IntV 2000, IntV 1], [StrV ''fr'', IntV 2000, IntV 2]]\<rparr>"

definition ex_merged :: frame where
  "ex_merged = \<lparr>columns = [''country_id'', ''year'', ''gold'', ''silver''],
                rows = [[StrV ''de'', IntV 2000, IntV 5, NaN], [StrV ''it'', IntV 2004, NaN, IntV 7],
                        [StrV ''fr'', IntV 2000, NaN, IntV 3]]\<rparr>"

subsection \<open>The denormalisation join\<close>

text \<open>
  \<^verbatim>\<open>left.merge(right, on=on, how='left', suffixes=(ls, rs))\<close>. pandas raises
  \<^verbatim>\<open>KeyError\<close> when a frame lacks the key column. Otherwise the rows of the left
  frame follow in their order; each is paired with every row of the right frame that has
  its key (missing keys match each other), in the order of the right frame, and with
  \<^verbatim>\<open>nan\<close> cells when there is none. The key column appears once; a label that
  both frames have gets the suffix of its side.
\<close>

definition merge_columns :: "string \<Rightarrow> string \<Rightarrow> string \<Rightarrow> frame \<Rightarrow> frame \<Rightarrow> string list" where
  "merge_columns on ls rs left right =
     map (\<lambda>c. if c \<noteq> on \<and> c \<in> set (columns right) then c @ ls else c) (columns left) @
     map (\<lambda>c. if c \<in> set (columns left) then c @ rs else c)
       (filter (\<lambda>c. c \<noteq> on) (columns right))"

definition matching_rows :: "string \<Rightarrow> frame \<Rightarrow> frame \<Rightarrow> cell list \<Rightarrow> cell list list" where
  "matching_rows on left right l =
     filter (\<lambda>r. key_val (get_cell (columns right) r on) = key_val (get_cell (columns left) l on))
       (rows right)"

definition merge_row :: "string \<Rightarrow> frame \<Rightarrow> frame \<Rightarrow> cell list \<Rightarrow> cell list list" where
  "merge_row on left right l =
     (case matching_rows on left right l of
        [] \<Rightarrow> [l @ replicate (length (filter (\<lambda>c. c \<noteq> on) (columns right))) NaN]
      | ms \<Rightarrow> map (\<lambda>r. l @ map (get_cell (columns right) r)
                             (filter (\<lambda>c. c \<noteq> on) (columns right))) ms)"

definition merge_left :: "string \<Rightarrow> string \<Rightarrow> string \<Rightarrow> frame \<Rightarrow> frame \<Rightarrow> error + frame" where
  "merge_left on ls rs left right =
     (if on \<notin> set (columns left) \<or> on \<notin> set (columns right) then Inl KeyError
      else Inr \<lparr>columns = merge_columns on ls rs left right,
                rows = concat (map (merge_row on left right) (rows left))\<rparr>)"

definition ex_fact :: frame where
  "ex_fact = \<lparr>columns = [''country_id'', ''year'', ''gold''],
              rows = [[StrV ''fr'', IntV 2000, IntV 1], [StrV ''xx'', IntV 2000, IntV 4]]\<rparr>"

definition ex_ref :: frame where
  "ex_ref = \<lparr>columns = [''country_id'', ''population''],
             rows = [[StrV ''fr'', IntV 60], [StrV ''de'', IntV 80]]\<rparr>"

definition ex_ref_dup :: frame where
  "ex_ref_dup = \<lparr>columns = [''country_id'', ''population''],
                 rows = [[StrV ''fr'', IntV 60], [StrV ''fr'', IntV 61]]\<rparr>"

section \<open>Strings\<close>

text \<open>
  Python's \<^verbatim>\<open>\s\<close> and \<^verbatim>\<open>str.strip\<close> take the characters for which
  \<^verbatim>\<open>str.isspace\<close> holds; below 256 these are the code points listed here.
  \<^verbatim>\<open>\d\<close> takes the decimal digits, below 256 the ASCII digits.
\<close>

definition is_space :: "char \<Rightarrow> bool" where
  "is_space c \<longleftrightarrow> (of_char c :: nat) \<in> {9, 10, 11, 12, 13, 28, 29, 30, 31, 32, 133, 160}"

definition is_digit :: "char \<Rightarrow> bool" where
  "is_digit c \<longleftrightarrow> 48 \<le> (of_char c :: nat) \<and> (of_char c :: nat) \<le> 57"

text \<open>\<^verbatim>\<open>re.sub(r'\s+', rep, s)\<close>: every maximal run of whitespace becomes \<open>rep\<close>.\<close>

function re_sub_ws :: "string \<Rightarrow> string \<Rightarrow> string" where
  "re_sub_ws rep [] = []"
| "re_sub_ws rep (c # cs) =
     (if is_space c then rep @ re_sub_ws rep (dropWhile is_space cs)
      else c # re_sub_ws rep cs)"
  by pat_completeness auto
termination
  by (relation "measure (\<lambda>(rep, s). length s)")
     (auto simp: length_dropWhile_le less_Suc_eq_le)

definition strip :: "string \<Rightarrow> string" where
  "strip s = rev (dropWhile is_space (rev (dropWhile is_space s)))"

text \<open>\<^verbatim>\<open>str.lower\<close> on code points below 256: the ASCII and the Latin-1 capitals.\<close>

definition lower_char :: "char \<Rightarrow> char" where
  "lower_char c =
     (let n = (of_char c :: nat)
      in if (65 \<le> n \<and> n \<le> 90) \<or> (192 \<le> n \<and> n \<le> 222 \<and> n \<noteq> 215)
         then char_of (n + 32) else c)"

definition lower :: "string \<Rightarrow> string" where
  "lower s = map lower_char s"

subsection \<open>Numbers and text\<close>

definition digit_val :: "char \<Rightarrow> nat" where
  "digit_val c = of_char c - 48"

definition nat_of_digits :: "string \<Rightarrow> nat" where
  "nat_of_digits ds = foldl (\<lambda>a c. 10 * a + digit_val c) 0 ds"

function nat_str :: "nat \<Rightarrow> string" where
  "nat_str n =
     (if n < 10 then [char_of (48 + n)] else nat_str (n div 10) @ [char_of (48 + n mod 10)])"
  by pat_completeness auto
termination
  by (relation "measure id") auto

declare nat_str.simps [simp del]

definition int_str :: "int \<Rightarrow> string" where
  "int_str i = (if i < 0 then CHR ''-'' # nat_str (nat (- i)) else nat_str (nat i))"

text \<open>
  What the pipeline takes from Python's library and does not define: the MD5 digest of
  the UTF-8 encoding of a string, in hexadecimal
  (\<^verbatim>\<open>hashlib.md5(s.encode('utf-8')).hexdigest()\<close>), and the text of a float
  (\<^verbatim>\<open>str(x)\<close>).
\<close>

record pylib =
  md5_hex :: "string \<Rightarrow> string"
  float_repr :: "rat \<Rightarrow> string"

text \<open>
  \<^verbatim>\<open>str(x)\<close>, which is also what \<^verbatim>\<open>Series.astype(str)\<close> writes in each
  cell (pandas before version 3): a missing value becomes the text \<^verbatim>\<open>None\<close> or
  \<^verbatim>\<open>nan\<close>.
\<close>

fun py_str :: "pylib \<Rightarrow> cell \<Rightarrow> string" where
  "py_str L NoneV = ''None''"
| "py_str L NaN = ''nan''"
| "py_str L (StrV s) = s"
| "py_str L (IntV i) = int_str i"
| "py_str L (FloatV q) = float_repr L q"

text \<open>\<^verbatim>\<open>pd.isna\<close> on a scalar.\<close>

fun isna :: "cell \<Rightarrow> bool" where
  "isna NoneV = True"
| "isna NaN = True"
| "isna _ = False"

definition country_id_from_name :: "pylib \<Rightarrow> cell \<Rightarrow> string" where
  "country_id_from_name L name =
     (let name = (if isna name then StrV [] else name);
          key = lower (strip (re_sub_ws '' '' (py_str L name)))
      in md5_hex L key)"

text \<open>
  The characters the pattern \<^verbatim>\<open>[^0-9.-]\<close> leaves, and
  \<^verbatim>\<open>pd.to_numeric(..., errors='coerce')\<close> on a text of such characters: an optional
  minus sign, then digits, or digits with one decimal point and at least one digit in all;
  any other text is \<^verbatim>\<open>nan\<close>.
\<close>

definition numeric_char :: "char \<Rightarrow> bool" where
  "numeric_char c \<longleftrightarrow> is_digit c \<or> c = CHR ''.'' \<or> c = CHR ''-''"

definition to_numeric :: "string \<Rightarrow> cell" where
  "to_numeric s =
     (let neg = (s \<noteq> [] \<and> hd s = CHR ''-'');
          body = (if neg then tl s else s);
          ip = takeWhile is_digit body;
          rest = dropWhile is_digit body;
          sgn = (if neg then - 1 else 1)
      in if rest = [] then (if ip = [] then NaN else IntV (sgn * int (nat_of_digits ip)))
         else if hd rest = CHR ''.'' \<and> list_all is_digit (tl rest) \<and> (ip \<noteq> [] \<or> tl rest \<noteq> [])
         then FloatV (of_int sgn * (of_nat (nat_of_digits ip) +
                of_nat (nat_of_digits (tl rest)) / 10 ^ length (tl rest)))
         else NaN)"

definition coerce_numeric :: "pylib \<Rightarrow> cell \<Rightarrow> cell" where
  "coerce_numeric L c = to_numeric (filter numeric_char (py_str L c))"

text \<open>\<^verbatim>\<open>re.search(r'(\d{4})', name)\<close>: the leftmost four digits in a row.\<close>

fun search_digits4 :: "string \<Rightarrow> string option" where
  "search_digits4 [] = None"
| "search_digits4 (c # cs) =
     (if 4 \<le> length (c # cs) \<and> list_all is_digit (take 4 (c # cs)) then Some (take 4 (c # cs))
      else search_digits4 cs)"

definition year_of_name :: "string \<Rightarrow> cell" where
  "year_of_name name =
     (case search_digits4 name of Some ds \<Rightarrow> IntV (int (nat_of_digits ds)) | None \<Rightarrow> NoneV)"

section \<open>The pipeline\<close>

subsection \<open>Column operations\<close>

text \<open>\<^verbatim>\<open>df.rename(columns=g)\<close>.\<close>

definition rename_columns :: "(string \<Rightarrow> string) \<Rightarrow> frame \<Rightarrow> frame" where
  "rename_columns g df = df\<lparr>columns := map g (columns df)\<rparr>"

definition normalize_columns :: "frame \<Rightarrow> frame" where
  "normalize_columns df = rename_columns (\<lambda>c. re_sub_ws ''_'' (lower (strip c))) df"

text \<open>\<^verbatim>\<open>df[c]\<close>: the cells of the column, one per row.\<close>

definition get_column :: "string \<Rightarrow> frame \<Rightarrow> cell list" where
  "get_column c df = map (\<lambda>r. get_cell (columns df) r c) (rows df)"

text \<open>
  \<^verbatim>\<open>df[c] = values\<close>: a column of that label is overwritten, otherwise the column
  is appended as the last one.
\<close>

definition set_column :: "string \<Rightarrow> cell list \<Rightarrow> frame \<Rightarrow> frame" where
  "set_column c vs df =
     (if c \<in> set (columns df)
      then df\<lparr>rows := map2 (\<lambda>v r. map2 (\<lambda>n x. if n = c then v else x) (columns df) r)
                          vs (rows df)\<rparr>
      else df\<lparr>columns := columns df @ [c], rows := map2 (\<lambda>v r. r @ [v]) vs (rows df)\<rparr>)"

text \<open>\<^verbatim>\<open>df[c] = v\<close> for a scalar \<open>v\<close>: the same cell in every row.\<close>

definition set_scalar :: "string \<Rightarrow> cell \<Rightarrow> frame \<Rightarrow> frame" where
  "set_scalar c v df = set_column c (replicate (length (rows df)) v) df"

text \<open>
  The loop over the alias tuple: the first alias that is a column is renamed to
  \<^verbatim>\<open>country\<close> and the loop stops. Then a frame without a \<^verbatim>\<open>country\<close>
  column gets one of \<^verbatim>\<open>None\<close> cells.
\<close>

fun rename_first_alias :: "string list \<Rightarrow> frame \<Rightarrow> frame" where
  "rename_first_alias [] df = df"
| "rename_first_alias (c # cs) df =
     (if c \<in> set (columns df)
      then rename_columns (\<lambda>x. if x = c then ''country'' else x) df
      else rename_first_alias cs df)"

definition unify_country :: "string list \<Rightarrow> frame \<Rightarrow> frame" where
  "unify_country aliases df =
     (let df = rename_first_alias aliases df
      in if ''country'' \<notin> set (columns df) then set_scalar ''country'' NoneV df else df)"

definition olympics_aliases :: "string list" where
  "olympics_aliases = [''nation'', ''country'', ''team'']"

definition countries_aliases :: "string list" where
  "countries_aliases = [''country'', ''name'', ''country_name'']"

text \<open>
  \<^verbatim>\<open>df[col] = pd.to_numeric(df[col].astype(str).str.replace(r'[^0-9.-]', '',
  regex=True), errors='coerce')\<close>.
\<close>

definition coerce_column :: "pylib \<Rightarrow> string \<Rightarrow> frame \<Rightarrow> frame" where
  "coerce_column L col df = set_column col (map (coerce_numeric L) (get_column col df)) df"

definition medal_columns :: "string list" where
  "medal_columns = [''gold'', ''silver'', ''bronze'', ''total'', ''rank'']"

text \<open>
  The loop over the medal labels: a label that is a column is coerced. With two columns
  of that label \<^verbatim>\<open>df[medal]\<close> is a frame, which has no \<^verbatim>\<open>.str\<close>, and the
  loop raises \<^verbatim>\<open>AttributeError\<close>.
\<close>

fun coerce_medals :: "pylib \<Rightarrow> string list \<Rightarrow> frame \<Rightarrow> error + frame" where
  "coerce_medals L [] df = Inr df"
| "coerce_medals L (medal # medals) df =
     (if medal \<in> set (columns df)
      then (if 1 < length (filter (\<lambda>c. c = medal) (columns df)) then Inl AttributeError
            else coerce_medals L medals (coerce_column L medal df))
      else coerce_medals L medals df)"

text \<open>
  \<^verbatim>\<open>df['country_id'] = df['country'].astype(str).apply(country_id_from_name)\<close>.
  With two columns labelled \<^verbatim>\<open>country\<close> the selection is a frame, the function
  is applied to whole columns and its test \<^verbatim>\<open>if pd.isna(name)\<close> raises
  \<^verbatim>\<open>ValueError\<close>.
\<close>

definition assign_country_id :: "pylib \<Rightarrow> frame \<Rightarrow> error + frame" where
  "assign_country_id L df =
     (if 1 < length (filter (\<lambda>c. c = ''country'') (columns df)) then Inl ValueError
      else Inr (set_column ''country_id''
                 (map (\<lambda>c. StrV (country_id_from_name L (StrV (py_str L c))))
                    (get_column ''country'' df)) df))"

subsection \<open>The fact side\<close>

text \<open>
  The body of the loop of \<^verbatim>\<open>read_olympics_files\<close> for one file, given its name and
  the frame \<^verbatim>\<open>pd.read_csv\<close> returns for it.
\<close>

definition olympics_frame :: "pylib \<Rightarrow> string \<times> frame \<Rightarrow> error + frame" where
  "olympics_frame L file =
     (let year = year_of_name (fst file);
          df = normalize_columns (snd file);
          df = set_scalar ''source_file'' (StrV (fst file)) df;
          df = set_scalar ''year'' year df;
          df = unify_country olympics_aliases df
      in case coerce_medals L medal_columns df of
           Inl e \<Rightarrow> Inl e
         | Inr df \<Rightarrow> assign_country_id L df)"

fun olympics_frames :: "pylib \<Rightarrow> (string \<times> frame) list \<Rightarrow> error + frame list" where
  "olympics_frames L [] = Inr []"
| "olympics_frames L (file # files) =
     (case olympics_frame L file of
        Inl e \<Rightarrow> Inl e
      | Inr df \<Rightarrow> (case olympics_frames L files of
                     Inl e \<Rightarrow> Inl e
                   | Inr dfs \<Rightarrow> Inr (df # dfs)))"

text \<open>
  \<^verbatim>\<open>read_olympics_files\<close>. The directory is \<open>None\<close> when it does not exist, and
  otherwise its files with the frames read from them; \<^verbatim>\<open>glob('*.csv')\<close> keeps the
  names that end in \<^verbatim>\<open>.csv\<close> and \<^verbatim>\<open>sorted\<close> orders the paths by name,
  code point by code point.
\<close>

definition glob_csv :: "(string \<times> frame) list \<Rightarrow> (string \<times> frame) list" where
  "glob_csv files =
     filter (\<lambda>file. 4 \<le> length (fst file) \<and> drop (length (fst file) - 4) (fst file) = ''.csv'')
       files"

definition read_olympics_files :: "pylib \<Rightarrow> (string \<times> frame) list option \<Rightarrow> error + frame" where
  "read_olympics_files L oly_dir =
     (case oly_dir of
        None \<Rightarrow> Inr empty_frame
      | Some files \<Rightarrow>
          (case olympics_frames L (sort_key fst (glob_csv files)) of
             Inl e \<Rightarrow> Inl e
           | Inr frames \<Rightarrow> if frames = [] then Inr empty_frame else Inr (concat_frames frames)))"

definition build_olympics_table :: "pylib \<Rightarrow> (string \<times> frame) list option \<Rightarrow> error + frame" where
  "build_olympics_table L oly_dir = read_olympics_files L oly_dir"

subsection \<open>The reference side\<close>

text \<open>\<^verbatim>\<open>re.search(r'(population|area|density|gdp|percapita|index|%|rate)', col)\<close>.\<close>

fun contains :: "string \<Rightarrow> string \<Rightarrow> bool" where
  "contains p [] \<longleftrightarrow> p = []"
| "contains p (c # cs) \<longleftrightarrow> take (length p) (c # cs) = p \<or> contains p cs"

definition numeric_like :: "string \<Rightarrow> bool" where
  "numeric_like col \<longleftrightarrow>
     list_ex (\<lambda>p. contains p col)
       [''population'', ''area'', ''density'', ''gdp'', ''percapita'', ''index'', ''%'', ''rate'']"

text \<open>
  The loop over the labels of the reference frame: a column whose label matches is
  coerced, and two columns of that label raise \<^verbatim>\<open>AttributeError\<close> as above.
\<close>

fun coerce_numeric_like :: "pylib \<Rightarrow> string list \<Rightarrow> frame \<Rightarrow> error + frame" where
  "coerce_numeric_like L [] df = Inr df"
| "coerce_numeric_like L (col # cols) df =
     (if numeric_like col
      then (if 1 < length (filter (\<lambda>c. c = col) (columns df)) then Inl AttributeError
            else coerce_numeric_like L cols (coerce_column L col df))
      else coerce_numeric_like L cols df)"

definition build_countries_table :: "pylib \<Rightarrow> frame option \<Rightarrow> error + frame" where
  "build_countries_table L countries_csv =
     (case countries_csv of
        None \<Rightarrow> Inr empty_frame
      | Some raw \<Rightarrow>
          (case assign_country_id L (unify_country countries_aliases (normalize_columns raw)) of
             Inl e \<Rightarrow> Inl e
           | Inr df \<Rightarrow> coerce_numeric_like L (columns df) df))"

subsection \<open>A run\<close>

text \<open>
  The three parquet files under \<^verbatim>\<open>outputs/\<close>, each absent or holding a frame, and
  \<^verbatim>\<open>run_pipeline\<close>: it returns the files as the run leaves them, with the three
  frames it returns or the exception that ended it. A file written before the exception
  stays written.
\<close>

record store =
  countries_parquet :: "frame option"
  olympics_parquet :: "frame option"
  denormalized_parquet :: "frame option"

definition run_pipeline ::
  "pylib \<Rightarrow> frame option \<Rightarrow> (string \<times> frame) list option \<Rightarrow> store \<Rightarrow>
   store \<times> (error + frame \<times> frame \<times> frame)" where
  "run_pipeline L countries_csv oly_dir st =
     (case build_countries_table L countries_csv of
        Inl e \<Rightarrow> (st, Inl e)
      | Inr countries \<Rightarrow>
     (case upsert_parquet countries (countries_parquet st) [''country_id''] of
        Inl e \<Rightarrow> (st, Inl e)
      | Inr countries_written \<Rightarrow>
     (let st1 = st\<lparr>countries_parquet := Some countries_written\<rparr> in
     (case build_olympics_table L oly_dir of
        Inl e \<Rightarrow> (st1, Inl e)
      | Inr olympics \<Rightarrow>
     (case upsert_parquet olympics (olympics_parquet st1) [''country_id'', ''year''] of
        Inl e \<Rightarrow> (st1, Inl e)
      | Inr olympics_written \<Rightarrow>
     (let st2 = st1\<lparr>olympics_parquet := Some olympics_written\<rparr> in
     (case merge_left ''country_id'' ''_olymp'' ''_country'' olympics_written countries_written of
        Inl e \<Rightarrow> (st2, Inl e)
      | Inr merged \<Rightarrow>
          (st2\<lparr>denormalized_parquet := Some merged\<rparr>,
           Inr (countries_written, olympics_written, merged)))))))))"

subsection \<open>Reading frames row by row\<close>

text \<open>Every row has one cell per column.\<close>

definition shaped :: "frame \<Rightarrow> bool" where
  "shaped df \<longleftrightarrow> list_all (\<lambda>r. length r = length (columns df)) (rows df)"

text \<open>The cell of row number \<open>i\<close> under label \<open>c\<close>.\<close>

definition cell_at :: "frame \<Rightarrow> nat \<Rightarrow> string \<Rightarrow> cell" where
  "cell_at df i c = get_cell (columns df) (rows df ! i) c"

text \<open>
  \<open>keeps C df df'\<close>: the frame \<open>df'\<close> has the rows of \<open>df\<close>, in order, with the same cell
  under every label outside \<open>C\<close>.
\<close>

definition keeps :: "string set \<Rightarrow> frame \<Rightarrow> frame \<Rightarrow> bool" where
  "keeps C df df' \<longleftrightarrow>
     length (rows df') = length (rows df) \<and> shaped df' \<and>
     (\<forall>i < length (rows df). \<forall>c. c \<notin> C \<longrightarrow> cell_at df' i c = cell_at df i c)"

text \<open>
  For the worked examples: a library whose digest is the text itself and whose floats
  all print as \<^verbatim>\<open>0.5\<close>. No theorem depends on it.
\<close>

definition ex_lib :: pylib where
  "ex_lib = \<lparr>md5_hex = (\<lambda>s. s), float_repr = (\<lambda>q. ''0.5'')\<rparr>"

definition ex_raw :: frame where
  "ex_raw = \<lparr>columns = [''Team'', ''Gold''],
             rows = [[StrV ''France'', StrV ''1,234 kg''], [NaN, StrV ''N/A'']]\<rparr>"

definition ex_files :: "(string \<times> frame) list" where
  "ex_files =
     [(''results_2000_b.csv'', \<lparr>columns = [''Team'', ''Gold''], rows = [[StrV ''France'', IntV 1]]\<rparr>),
      (''notes.txt'', \<lparr>columns = [''x''], rows = [[IntV 0]]\<rparr>),
      (''results_2000_a.csv'', \<lparr>columns = [''Nation'', ''Gold''], rows = [[StrV ''france'', IntV 2]]\<rparr>)]"

definition ex_two :: frame where
  "ex_two = \<lparr>columns = [''country'', ''gold'', ''source_file'', ''year'', ''country_id''],
             rows = [[StrV ''france'', IntV 2, StrV ''results_2000_a.csv'', IntV 2000, StrV ''france''],
                     [StrV ''France'', IntV 1, StrV ''results_2000_b.csv'', IntV 2000, StrV ''france'']]\<rparr>"

definition ex_written :: frame where
  "ex_written = \<lparr>columns = [''country_id'', ''year'', ''gold'', ''country'', ''source_file''],
                 rows = [[StrV ''fr'', IntV 2000, IntV 1, NaN, NaN],
                         [StrV ''de'', IntV 2000, IntV 5, NaN, NaN],
                         [StrV ''france'', IntV 2000, IntV 1, StrV ''France'',
                          StrV ''results_2000_b.csv'']]\<rparr>"

section \<open>Properties of deduplication\<close>

lemma keep_last_subset: "set (keep_last k xs) \<subseteq> set xs"
  by (induction xs) auto

lemma keep_last_keys: "k ` set (keep_last k xs) = k ` set xs"
  by (induction xs) auto

lemma keep_last_distinct: "distinct (map k (keep_last k xs))"
proof (induction xs)
  case Nil
  show ?case by simp
next
  case (Cons x xs)
  have "k x \<notin> k ` set xs \<Longrightarrow> k x \<notin> k ` set (keep_last k xs)"
    by (simp add: keep_last_keys)
  with Cons show ?case by auto
qed

lemma keep_last_id: "distinct (map k xs) \<Longrightarrow> keep_last k xs = xs"
  by (induction xs) auto

lemma keep_last_append:
  "keep_last k (xs @ ys) =
     filter (\<lambda>r. k r \<notin> k ` set ys) (keep_last k xs) @ keep_last k ys"
  by (induction xs) (auto simp: keep_last_keys)

lemma union_columns_two:
  "union_columns [a, b] = columns a @ filter (\<lambda>c. c \<notin> set (columns a)) (columns b)"
  by (simp add: union_columns_def)

lemma concat_two_columns:
  "columns (concat_frames [a, b]) =
     columns a @ filter (\<lambda>c. c \<notin> set (columns a)) (columns b)"
  by (simp add: concat_frames_def union_columns_two)

lemma concat_two_rows:
  "rows (concat_frames [a, b]) =
     reindex (columns (concat_frames [a, b])) a @ reindex (columns (concat_frames [a, b])) b"
  by (simp add: concat_frames_def)

lemma concat_two_set: "set (columns (concat_frames [a, b])) = set (columns a) \<union> set (columns b)"
  by (auto simp: concat_two_columns)

lemma concat_two_distinct:
  "distinct (columns a) \<Longrightarrow> distinct (columns b) \<Longrightarrow> distinct (columns (concat_frames [a, b]))"
  by (auto simp: concat_two_columns)

lemma get_cell_pad:
  "c \<in> set U \<Longrightarrow> get_cell U (map (get_cell cols r) U) c = get_cell cols r c"
  by (simp add: get_cell_def[of U] map_of_zip_map)

lemma get_cell_pad_absent:
  "c \<notin> set U \<Longrightarrow> get_cell U (map f U) c = NaN"
  by (simp add: get_cell_def map_of_zip_map)

lemma row_key_pad:
  "set K \<subseteq> set U \<Longrightarrow> row_key U K (map (get_cell cols r) U) = row_key cols K r"
  by (auto simp: row_key_def get_cell_pad)

lemma get_cell_Cons:
  "get_cell (c # cols) (x # xs) a = (if a = c then x else get_cell cols xs a)"
  by (simp add: get_cell_def)

lemma pad_self:
  "distinct cols \<Longrightarrow> length r = length cols \<Longrightarrow> map (get_cell cols r) cols = r"
proof (induction cols arbitrary: r)
  case Nil
  then show ?case by simp
next
  case (Cons c cols)
  then obtain x xs where r: "r = x # xs" by (cases r) auto
  with Cons.prems have len: "length xs = length cols" and nin: "c \<notin> set cols" and d: "distinct cols"
    by auto
  have "map (get_cell (c # cols) (x # xs)) cols = map (get_cell cols xs) cols"
    using nin by (auto simp: get_cell_Cons)
  with Cons.IH[OF d len] have b: "map (get_cell (c # cols) (x # xs)) cols = xs" by simp
  have a: "get_cell (c # cols) (x # xs) c = x" by (simp add: get_cell_Cons)
  show ?case unfolding r using a b by simp
qed

lemma reindex_self: "wf_frame f \<Longrightarrow> reindex (columns f) f = rows f"
  by (auto simp: reindex_def wf_frame_def list_all_iff pad_self intro: map_idI)

lemma keep_last_filter_key:
  "k r = a \<Longrightarrow> a \<notin> k ` set ys \<Longrightarrow>
   filter (\<lambda>x. k x = a) (keep_last k (xs @ r # ys)) = [r]"
proof -
  assume kr: "k r = a" and nin: "a \<notin> k ` set ys"
  have 1: "filter (\<lambda>x. k x = a) (filter (\<lambda>x. k x \<notin> k ` set (r # ys)) (keep_last k xs)) = []"
    using kr by (auto simp: filter_empty_conv)
  have 2: "keep_last k (r # ys) = r # keep_last k ys" using kr nin by auto
  have 3: "filter (\<lambda>x. k x = a) (keep_last k ys) = []"
    using nin keep_last_keys[of k ys] by (auto simp: filter_empty_conv)
  show ?thesis unfolding keep_last_append[of k xs "r # ys"] using 1 2 3 kr by simp
qed

lemma wf_concat_two:
  assumes "wf_frame a" and "wf_frame b"
  shows "wf_frame (concat_frames [a, b])"
proof -
  have d: "distinct (columns (concat_frames [a, b]))"
    using assms by (simp add: concat_two_distinct wf_frame_def)
  have l: "list_all (\<lambda>r. length r = length (columns (concat_frames [a, b])))
             (rows (concat_frames [a, b]))"
    by (auto simp: concat_two_rows reindex_def list_all_iff)
  have e: "columns (concat_frames [a, b]) = [] \<longrightarrow> rows (concat_frames [a, b]) = []"
  proof
    assume "columns (concat_frames [a, b]) = []"
    then have "columns a = []" and "columns b = []"
      by (auto simp: concat_two_columns filter_empty_conv)
    with assms have "rows a = []" and "rows b = []" by (auto simp: wf_frame_def)
    then show "rows (concat_frames [a, b]) = []" by (simp add: concat_two_rows reindex_def)
  qed
  from d l e show ?thesis unfolding wf_frame_def by blast
qed

lemma keep_last_twice: "keep_last k (keep_last k (xs @ ys) @ ys) = keep_last k (xs @ ys)"
proof -
  have i: "keep_last k (keep_last k (xs @ ys)) = keep_last k (xs @ ys)"
    by (rule keep_last_id) (rule keep_last_distinct)
  have f: "filter (\<lambda>r. k r \<notin> k ` set ys) (keep_last k ys) = []"
    using keep_last_keys[of k ys] by (auto simp: filter_empty_conv)
  have "keep_last k (keep_last k (xs @ ys) @ ys) =
          filter (\<lambda>r. k r \<notin> k ` set ys) (keep_last k (xs @ ys)) @ keep_last k ys"
    unfolding keep_last_append[of k "keep_last k (xs @ ys)" ys] i ..
  also have "\<dots> = filter (\<lambda>r. k r \<notin> k ` set ys) (keep_last k xs) @ keep_last k ys"
    unfolding keep_last_append[of k xs ys] using f by simp
  also have "\<dots> = keep_last k (xs @ ys)"
    by (simp add: keep_last_append)
  finally show ?thesis .
qed

lemma keep_last_Nil_iff: "keep_last k xs = [] \<longleftrightarrow> xs = []"
  using keep_last_keys[of k xs] by (cases xs) auto

lemma concat_with_batch_again:
  assumes "wf_frame R" and "set (columns T) \<subseteq> set (columns R)"
  shows "concat_frames [R, T] = \<lparr>columns = columns R, rows = rows R @ reindex (columns R) T\<rparr>"
proof -
  have c: "columns (concat_frames [R, T]) = columns R"
    using assms(2) by (auto simp: concat_two_columns filter_empty_conv)
  have "rows (concat_frames [R, T]) = rows R @ reindex (columns R) T"
    unfolding concat_two_rows c using reindex_self[OF assms(1)] by simp
  with c show ?thesis by simp
qed


lemma upsert_existing_cases:
  assumes wfS: "wf_frame S" and wfT: "wf_frame T"
    and up: "upsert_parquet T (Some S) key_cols = Inr R"
  shows "(rows (concat_frames [S, T]) = [] \<and> R = concat_frames [S, T]) \<or>
         (rows (concat_frames [S, T]) \<noteq> [] \<and> columns (concat_frames [S, T]) \<noteq> [] \<and>
          set key_cols \<subseteq> set (columns (concat_frames [S, T])) \<and>
          R = (concat_frames [S, T])\<lparr>rows :=
                keep_last (row_key (columns (concat_frames [S, T])) key_cols)
                  (rows (concat_frames [S, T]))\<rparr>)"
proof -
  have "wf_frame (concat_frames [S, T])" using wfS wfT by (rule wf_concat_two)
  then have "columns (concat_frames [S, T]) = [] \<Longrightarrow> rows (concat_frames [S, T]) = []"
    by (simp add: wf_frame_def)
  with up show ?thesis
    by (auto simp: upsert_parquet_def drop_duplicates_last_def split: if_splits)
qed

lemma upsert_again_existing:
  assumes wfS: "wf_frame S" and wfT: "wf_frame T"
    and up: "upsert_parquet T (Some S) key_cols = Inr R"
  shows "upsert_parquet T (Some R) key_cols = Inr R"
proof -
  let ?C = "concat_frames [S, T]"
  let ?U = "columns ?C"
  let ?K = "row_key ?U key_cols"
  have wfC: "wf_frame ?C" using wfS wfT by (rule wf_concat_two)
  have sub: "set (columns T) \<subseteq> set ?U" by (simp add: concat_two_set)
  have rowsC: "rows ?C = reindex ?U S @ reindex ?U T" by (rule concat_two_rows)
  from upsert_existing_cases[OF assms] show ?thesis
  proof (elim disjE conjE)
    assume e: "rows ?C = []" and R: "R = ?C"
    from e rowsC have "reindex ?U T = []" by simp
    with concat_with_batch_again[OF wfC sub] e have "concat_frames [?C, T] = ?C" by simp
    with e R show ?thesis by (simp add: upsert_parquet_def drop_duplicates_last_def)
  next
    assume ne: "rows ?C \<noteq> []" and nc: "?U \<noteq> []" and ks: "set key_cols \<subseteq> set ?U"
      and R: "R = ?C\<lparr>rows := keep_last ?K (rows ?C)\<rparr>"
    have cR: "columns R = ?U" using R by simp
    have rR: "rows R = keep_last ?K (reindex ?U S @ reindex ?U T)" using R rowsC by simp
    have wfR: "wf_frame R"
      using wfC keep_last_subset[of ?K "rows ?C"] nc unfolding wf_frame_def R
      by (auto simp: list_all_iff)
    have subR: "set (columns T) \<subseteq> set (columns R)" using sub cR by simp
    have C2: "concat_frames [R, T] = \<lparr>columns = ?U, rows = rows R @ reindex ?U T\<rparr>"
      using concat_with_batch_again[OF wfR subR] cR by simp
    have ne2: "rows R @ reindex ?U T \<noteq> []"
      using ne rR rowsC by (simp add: keep_last_Nil_iff)
    have "keep_last ?K (rows R @ reindex ?U T) = rows R"
      unfolding rR by (rule keep_last_twice)
    then have "drop_duplicates_last key_cols (concat_frames [R, T]) = Inr R"
      unfolding C2 using ne2 nc ks cR by (simp add: drop_duplicates_last_def)
    then show ?thesis by (simp add: upsert_parquet_def)
  qed
qed

lemma upsert_again_first_run:
  assumes wfT: "wf_frame T" and ks: "rows T = [] \<or> set key_cols \<subseteq> set (columns T)"
  shows "upsert_parquet T (Some T) key_cols =
           Inr (T\<lparr>rows := keep_last (row_key (columns T) key_cols) (rows T)\<rparr>)"
proof -
  let ?K = "row_key (columns T) key_cols"
  have c: "concat_frames [T, T] = \<lparr>columns = columns T, rows = rows T @ rows T\<rparr>"
    using concat_with_batch_again[OF wfT, of T] reindex_self[OF wfT] by simp
  have e: "columns T = [] \<Longrightarrow> rows T = []" using wfT by (simp add: wf_frame_def)
  have "filter (\<lambda>r. ?K r \<notin> ?K ` set (rows T)) (keep_last ?K (rows T)) = []"
    using keep_last_subset[of ?K "rows T"] by (auto simp: filter_empty_conv)
  then have k: "keep_last ?K (rows T @ rows T) = keep_last ?K (rows T)"
    by (simp add: keep_last_append)
  show ?thesis
  proof (cases "rows T = []")
    case True
    then show ?thesis by (simp add: upsert_parquet_def c drop_duplicates_last_def)
  next
    case False
    with ks e have "set key_cols \<subseteq> set (columns T)" and "columns T \<noteq> []" by auto
    with False k show ?thesis by (simp add: upsert_parquet_def c drop_duplicates_last_def)
  qed
qed

text \<open>
  C2, as the code has it. When a persisted table \<open>S\<close> exists and upserting the batch \<open>T\<close>
  into it has written \<open>R\<close>, upserting \<open>T\<close> again into \<open>R\<close> writes \<open>R\<close> again. When no
  persisted table exists, the first upsert writes \<open>T\<close> as it is, and upserting \<open>T\<close> again
  writes \<open>T\<close> deduplicated by key, the last row of each key kept: the same table when \<open>T\<close>
  has at most one row per key.
\<close>

theorem upsert_idempotent:
  assumes wfT: "wf_frame T"
  shows "(wf_frame S \<longrightarrow> upsert_parquet T (Some S) key_cols = Inr R \<longrightarrow>
            upsert_parquet T (Some R) key_cols = Inr R) \<and>
         upsert_parquet T None key_cols = Inr T \<and>
         (rows T = [] \<or> set key_cols \<subseteq> set (columns T) \<longrightarrow>
            upsert_parquet T (Some T) key_cols =
              Inr (T\<lparr>rows := keep_last (row_key (columns T) key_cols) (rows T)\<rparr>) \<and>
            (distinct (map (row_key (columns T) key_cols) (rows T)) \<longrightarrow>
               upsert_parquet T (Some T) key_cols = Inr T))"
proof (intro conjI impI)
  show "upsert_parquet T (Some R) key_cols = Inr R"
    if "wf_frame S" and "upsert_parquet T (Some S) key_cols = Inr R"
    using that(1) wfT that(2) by (rule upsert_again_existing)
  show "upsert_parquet T None key_cols = Inr T" by (simp add: upsert_parquet_def)
  show "upsert_parquet T (Some T) key_cols =
          Inr (T\<lparr>rows := keep_last (row_key (columns T) key_cols) (rows T)\<rparr>)"
    if "rows T = [] \<or> set key_cols \<subseteq> set (columns T)"
    using wfT that by (rule upsert_again_first_run)
  show "upsert_parquet T (Some T) key_cols = Inr T"
    if "rows T = [] \<or> set key_cols \<subseteq> set (columns T)"
      and "distinct (map (row_key (columns T) key_cols) (rows T))"
    using upsert_again_first_run[OF wfT that(1)] that(2) by (simp add: keep_last_id)
qed

theorem upsert_idempotent_witness:
  "wf_frame ex_prior \<and> wf_frame ex_batch \<and>
   upsert_parquet ex_batch (Some ex_prior) ex_keys = Inr ex_merged \<and>
   upsert_parquet ex_batch (Some ex_merged) ex_keys = Inr ex_merged \<and>
   set ex_keys \<subseteq> set (columns ex_prior) \<and>
   distinct (map (row_key (columns ex_prior) ex_keys) (rows ex_prior)) \<and>
   upsert_parquet ex_prior None ex_keys = Inr ex_prior \<and>
   upsert_parquet ex_prior (Some ex_prior) ex_keys = Inr ex_prior"
proof -
  have a: "wf_frame ex_prior" by code_simp
  have b: "wf_frame ex_batch" by code_simp
  have c: "upsert_parquet ex_batch (Some ex_prior) ex_keys = Inr ex_merged" by code_simp
  have d: "set ex_keys \<subseteq> set (columns ex_prior)" by code_simp
  have e: "distinct (map (row_key (columns ex_prior) ex_keys) (rows ex_prior))" by code_simp
  from upsert_idempotent[OF b, of ex_prior ex_keys ex_merged] a c
  have 1: "upsert_parquet ex_batch (Some ex_merged) ex_keys = Inr ex_merged" by blast
  from upsert_idempotent[OF a, of ex_prior ex_keys ex_merged] d e
  have 2: "upsert_parquet ex_prior None ex_keys = Inr ex_prior \<and>
           upsert_parquet ex_prior (Some ex_prior) ex_keys = Inr ex_prior" by blast
  from a b c d e 1 2 show ?thesis by blast
qed

text \<open>
  From no persisted table, a batch with two rows of one key is written as it is by the
  first upsert, and the second upsert of the same batch writes one row only.
\<close>

theorem upsert_first_run_not_idempotent:
  "upsert_parquet ex_dup None ex_keys = Inr ex_dup \<and>
   upsert_parquet ex_dup (Some ex_dup) ex_keys =
     Inr \<lparr>columns = [''country_id'', ''year'', ''gold''],
          rows = [[StrV ''fr'', IntV 2000, IntV 2]]\<rparr> \<and>
   upsert_parquet ex_dup (Some ex_dup) ex_keys \<noteq> Inr ex_dup"
  by code_simp

text \<open>
  C1. Last write wins: the persisted table \<open>S\<close> holds a row of key \<open>k\<close>, and in the batch
  \<open>T\<close> a row \<open>r2\<close> of key \<open>k\<close> is followed by the row \<open>r3\<close> of key \<open>k\<close>, the last one of
  that key. Then the upsert returns a table with exactly one row of key \<open>k\<close>: the row
  \<open>r3\<close>, reindexed to the columns of the merged table, holding the cells of \<open>r3\<close> in every
  column of the batch.
\<close>

theorem upsert_last_write_wins:
  assumes wfS: "wf_frame S"
    and KS: "set key_cols \<subseteq> set (columns S)" and KT: "set key_cols \<subseteq> set (columns T)"
    and r1: "r1 \<in> set (rows S)" and k1: "row_key (columns S) key_cols r1 = k"
    and T: "rows T = pre @ r2 # mid @ r3 # post"
    and k2: "row_key (columns T) key_cols r2 = k"
    and k3: "row_key (columns T) key_cols r3 = k"
    and post: "k \<notin> row_key (columns T) key_cols ` set post"
  shows "\<exists>R. upsert_parquet T (Some S) key_cols = Inr R \<and>
           filter (\<lambda>r. row_key (columns R) key_cols r = k) (rows R) =
             [map (get_cell (columns T) r3) (columns R)] \<and>
           (\<forall>c \<in> set (columns T).
              get_cell (columns R) (map (get_cell (columns T) r3) (columns R)) c =
              get_cell (columns T) r3 c)"
proof -
  let ?C = "concat_frames [S, T]"
  let ?U = "columns ?C"
  let ?K = "row_key ?U key_cols"
  let ?pad = "\<lambda>r. map (get_cell (columns T) r) ?U"
  let ?R = "?C\<lparr>rows := keep_last ?K (rows ?C)\<rparr>"
  have ks: "set key_cols \<subseteq> set ?U" using KS by (auto simp: concat_two_set)
  have key_pad: "?K (?pad r) = row_key (columns T) key_cols r" for r
    using ks by (rule row_key_pad)
  have "columns S \<noteq> []" using wfS r1 by (auto simp: wf_frame_def)
  then have nc: "?U \<noteq> []" by (simp add: concat_two_columns)
  have rowsC: "rows ?C = (reindex ?U S @ map ?pad pre @ ?pad r2 # map ?pad mid) @
                 ?pad r3 # map ?pad post"
    by (simp add: concat_two_rows reindex_def[of _ T] T)
  then have ne: "rows ?C \<noteq> []" by simp
  have up: "upsert_parquet T (Some S) key_cols = Inr ?R"
    using ne nc ks by (simp add: upsert_parquet_def drop_duplicates_last_def)
  have "k \<notin> ?K ` set (map ?pad post)"
    using post by (auto simp: key_pad)
  with key_pad[of r3] k3
  have "filter (\<lambda>x. ?K x = k) (keep_last ?K (rows ?C)) = [?pad r3]"
    unfolding rowsC by (intro keep_last_filter_key) auto
  then have one: "filter (\<lambda>r. row_key (columns ?R) key_cols r = k) (rows ?R) =
                    [map (get_cell (columns T) r3) (columns ?R)]"
    by simp
  have cells: "\<forall>c \<in> set (columns T).
      get_cell (columns ?R) (map (get_cell (columns T) r3) (columns ?R)) c =
      get_cell (columns T) r3 c"
    by (auto simp: concat_two_set intro: get_cell_pad)
  from up one cells show ?thesis by blast
qed

theorem upsert_last_write_wins_witness:
  "wf_frame ex_prior \<and> set ex_keys \<subseteq> set (columns ex_prior) \<and>
   set ex_keys \<subseteq> set (columns ex_batch) \<and>
   [StrV ''fr'', IntV 2000, IntV 1] \<in> set (rows ex_prior) \<and>
   row_key (columns ex_prior) ex_keys [StrV ''fr'', IntV 2000, IntV 1] = [KStr ''fr'', KNum 2000] \<and>
   rows ex_batch = [] @ [StrV ''fr'', IntV 2000, IntV 2] # [[StrV ''it'', IntV 2004, IntV 7]] @
                     [StrV ''fr'', IntV 2000, IntV 3] # [] \<and>
   (\<exists>R. upsert_parquet ex_batch (Some ex_prior) ex_keys = Inr R \<and>
        filter (\<lambda>r. row_key (columns R) ex_keys r = [KStr ''fr'', KNum 2000]) (rows R) =
          [map (get_cell (columns ex_batch) [StrV ''fr'', IntV 2000, IntV 3]) (columns R)])"
proof -
  have a: "wf_frame ex_prior" by code_simp
  have b: "set ex_keys \<subseteq> set (columns ex_prior)" by code_simp
  have c: "set ex_keys \<subseteq> set (columns ex_batch)" by code_simp
  have d: "[StrV ''fr'', IntV 2000, IntV 1] \<in> set (rows ex_prior)" by code_simp
  have e: "row_key (columns ex_prior) ex_keys [StrV ''fr'', IntV 2000, IntV 1] =
             [KStr ''fr'', KNum 2000]" by code_simp
  have f: "rows ex_batch = [] @ [StrV ''fr'', IntV 2000, IntV 2] #
             [[StrV ''it'', IntV 2004, IntV 7]] @ [StrV ''fr'', IntV 2000, IntV 3] # []"
    by code_simp
  have g: "row_key (columns ex_batch) ex_keys [StrV ''fr'', IntV 2000, IntV 2] =
             [KStr ''fr'', KNum 2000]" by code_simp
  have h: "row_key (columns ex_batch) ex_keys [StrV ''fr'', IntV 2000, IntV 3] =
             [KStr ''fr'', KNum 2000]" by code_simp
  have i: "[KStr ''fr'', KNum 2000] \<notin> row_key (columns ex_batch) ex_keys ` set []" by simp
  from upsert_last_write_wins[OF a b c d e f g h i] a b c d e f show ?thesis by blast
qed


text \<open>
  C4, as the code has it. On the first run (no persisted table) the upsert writes the
  batch as it is. When a persisted table exists, the table written has at most one row
  per composite key: the keys of its rows, read in order, are pairwise different.
\<close>

theorem upsert_keys_unique:
  "upsert_parquet T None key_cols = Inr T \<and>
   (wf_frame S \<longrightarrow> wf_frame T \<longrightarrow> upsert_parquet T (Some S) key_cols = Inr R \<longrightarrow>
      distinct (map (row_key (columns R) key_cols) (rows R)))"
proof (intro conjI impI)
  show "upsert_parquet T None key_cols = Inr T" by (simp add: upsert_parquet_def)
next
  assume "wf_frame S" and "wf_frame T" and "upsert_parquet T (Some S) key_cols = Inr R"
  from upsert_existing_cases[OF this]
  show "distinct (map (row_key (columns R) key_cols) (rows R))"
    by (auto simp: keep_last_distinct)
qed

theorem upsert_keys_unique_witness:
  "upsert_parquet ex_batch None ex_keys = Inr ex_batch \<and>
   wf_frame ex_prior \<and> wf_frame ex_batch \<and>
   upsert_parquet ex_batch (Some ex_prior) ex_keys =
     Inr ex_merged \<and>
   distinct (map (row_key (columns ex_merged) ex_keys) (rows ex_merged))"
proof -
  have a: "wf_frame ex_prior" by code_simp
  have b: "wf_frame ex_batch" by code_simp
  have c: "upsert_parquet ex_batch (Some ex_prior) ex_keys =
     Inr ex_merged"
    by code_simp
  from upsert_keys_unique[of ex_batch ex_keys ex_prior ex_merged] a b c show ?thesis by blast
qed

text \<open>
  The first run of the pipeline on a batch with two rows of one key persists both rows.
\<close>

theorem upsert_first_run_keeps_duplicates:
  "upsert_parquet ex_dup None ex_keys = Inr ex_dup \<and>
   rows ex_dup = [[StrV ''fr'', IntV 2000, IntV 1], [StrV ''fr'', IntV 2000, IntV 2]] \<and>
   row_key (columns ex_dup) ex_keys [StrV ''fr'', IntV 2000, IntV 1] =
     row_key (columns ex_dup) ex_keys [StrV ''fr'', IntV 2000, IntV 2] \<and>
   \<not> distinct (map (row_key (columns ex_dup) ex_keys) (rows ex_dup))"
  by code_simp

text \<open>
  C7, as the code has it. Upserting the empty batch into a persisted table \<open>S\<close> whose key
  columns exist (or which has no row) is not an error and writes \<open>S\<close> deduplicated by
  key, the last row of each key kept; it writes \<open>S\<close> itself, row for row, when \<open>S\<close> has
  at most one row per key.
\<close>

theorem upsert_empty_batch:
  assumes wfS: "wf_frame S" and ks: "rows S = [] \<or> set key_cols \<subseteq> set (columns S)"
  shows "upsert_parquet empty_frame (Some S) key_cols =
           Inr (S\<lparr>rows := keep_last (row_key (columns S) key_cols) (rows S)\<rparr>) \<and>
         (distinct (map (row_key (columns S) key_cols) (rows S)) \<longrightarrow>
            upsert_parquet empty_frame (Some S) key_cols = Inr S)"
proof -
  have c: "concat_frames [S, empty_frame] = S"
    using reindex_self[OF wfS]
    by (simp add: concat_frames_def union_columns_two empty_frame_def reindex_def[of _ "\<lparr>columns = [], rows = []\<rparr>"])
  have e: "columns S = [] \<Longrightarrow> rows S = []" using wfS by (simp add: wf_frame_def)
  have 1: "upsert_parquet empty_frame (Some S) key_cols =
           Inr (S\<lparr>rows := keep_last (row_key (columns S) key_cols) (rows S)\<rparr>)"
    using ks e by (auto simp: upsert_parquet_def c drop_duplicates_last_def)
  show ?thesis using 1 by (auto simp: keep_last_id)
qed

theorem upsert_empty_batch_witness:
  "wf_frame ex_prior \<and> set ex_keys \<subseteq> set (columns ex_prior) \<and>
   distinct (map (row_key (columns ex_prior) ex_keys) (rows ex_prior)) \<and>
   upsert_parquet empty_frame (Some ex_prior) ex_keys = Inr ex_prior"
proof -
  have a: "wf_frame ex_prior" by code_simp
  have b: "set ex_keys \<subseteq> set (columns ex_prior)" by code_simp
  have c: "distinct (map (row_key (columns ex_prior) ex_keys) (rows ex_prior))" by code_simp
  from upsert_empty_batch[OF a disjI2[OF b]] a b c show ?thesis by blast
qed

text \<open>
  A table persisted by a first run with two rows of one key loses the earlier row when an
  empty batch is upserted.
\<close>

theorem upsert_empty_batch_changes_table:
  "upsert_parquet ex_dup None ex_keys = Inr ex_dup \<and>
   upsert_parquet empty_frame (Some ex_dup) ex_keys =
     Inr \<lparr>columns = [''country_id'', ''year'', ''gold''],
          rows = [[StrV ''fr'', IntV 2000, IntV 2]]\<rparr> \<and>
   upsert_parquet empty_frame (Some ex_dup) ex_keys \<noteq> Inr ex_dup"
  by code_simp

lemma filter_key_le_one:
  "distinct (map k xs) \<Longrightarrow> length (filter (\<lambda>x. k x = a) xs) \<le> 1"
proof (induction xs)
  case Nil
  show ?case by simp
next
  case (Cons x xs)
  show ?case
  proof (cases "k x = a")
    case True
    with Cons.prems have "filter (\<lambda>x. k x = a) xs = []"
      by (auto simp: filter_empty_conv image_iff)
    with True show ?thesis by simp
  next
    case False
    with Cons show ?thesis by simp
  qed
qed

lemma merge_row_single:
  assumes "distinct (map (row_key (columns right) [on]) (rows right))"
  shows "\<exists>t. merge_row on left right l = [l @ t] \<and>
             (matching_rows on left right l = [] \<longrightarrow>
                t = replicate (length (filter (\<lambda>c. c \<noteq> on) (columns right))) NaN)"
proof -
  have "length (matching_rows on left right l) \<le> 1"
    unfolding matching_rows_def
    using filter_key_le_one[OF assms, of "[key_val (get_cell (columns left) l on)]"]
    by (simp add: row_key_def)
  then consider "matching_rows on left right l = []"
    | r where "matching_rows on left right l = [r]"
    by (cases "matching_rows on left right l") (auto simp: Suc_le_eq)
  then show ?thesis
    by cases (auto simp: merge_row_def)
qed


text \<open>
  C3, as the code has it. When both tables have the token column and the reference table
  has at most one row per token (which the upsert guarantees when it found a persisted
  reference table), the left join returns one row per fact row, in order: its cells under
  the fact columns are the fact row's, so the row counts are equal, and a fact row with no
  reference row of its token is followed by \<^verbatim>\<open>nan\<close> cells only.
\<close>

theorem join_completeness:
  assumes on_l: "on \<in> set (columns fct)" and on_r: "on \<in> set (columns ref)"
    and wf: "wf_frame fct"
    and uniq: "distinct (map (row_key (columns ref) [on]) (rows ref))"
  shows "\<exists>out. merge_left on ls rs fct ref = Inr out \<and>
           length (rows out) = length (rows fct) \<and>
           map (take (length (columns fct))) (rows out) = rows fct \<and>
           (\<forall>i < length (rows fct). matching_rows on fct ref (rows fct ! i) = [] \<longrightarrow>
              rows out ! i = rows fct ! i @
                replicate (length (filter (\<lambda>c. c \<noteq> on) (columns ref))) NaN)"
proof -
  let ?n = "length (filter (\<lambda>c. c \<noteq> on) (columns ref))"
  have "\<forall>l. \<exists>t. merge_row on fct ref l = [l @ t] \<and>
          (matching_rows on fct ref l = [] \<longrightarrow> t = replicate ?n NaN)"
    using merge_row_single[OF uniq] by blast
  then obtain f where f: "\<And>l. merge_row on fct ref l = [l @ f l]"
    and fn: "\<And>l. matching_rows on fct ref l = [] \<Longrightarrow> f l = replicate ?n NaN"
    by metis
  let ?out = "\<lparr>columns = merge_columns on ls rs fct ref,
               rows = map (\<lambda>l. l @ f l) (rows fct)\<rparr>"
  have "concat (map (merge_row on fct ref) (rows fct)) = map (\<lambda>l. l @ f l) (rows fct)"
    by (induction "rows fct") (simp_all add: f)
  then have m: "merge_left on ls rs fct ref = Inr ?out"
    using on_l on_r by (simp add: merge_left_def)
  have len: "\<And>l. l \<in> set (rows fct) \<Longrightarrow> length l = length (columns fct)"
    using wf by (simp add: wf_frame_def list_all_iff)
  have t: "map (take (length (columns fct))) (rows ?out) = rows fct"
    by (auto simp: len intro: map_idI)
  have n: "\<forall>i < length (rows fct). matching_rows on fct ref (rows fct ! i) = [] \<longrightarrow>
             rows ?out ! i = rows fct ! i @ replicate ?n NaN"
    by (simp add: fn)
  have l: "length (rows ?out) = length (rows fct)" by simp
  from m l t n show ?thesis by blast
qed

theorem join_completeness_witness:
  "''country_id'' \<in> set (columns ex_fact) \<and> ''country_id'' \<in> set (columns ex_ref) \<and>
   wf_frame ex_fact \<and> distinct (map (row_key (columns ex_ref) [''country_id'']) (rows ex_ref)) \<and>
   merge_left ''country_id'' ''_olymp'' ''_country'' ex_fact ex_ref =
     Inr \<lparr>columns = [''country_id'', ''year'', ''gold'', ''population''],
          rows = [[StrV ''fr'', IntV 2000, IntV 1, IntV 60],
                  [StrV ''xx'', IntV 2000, IntV 4, NaN]]\<rparr> \<and>
   (\<exists>out. merge_left ''country_id'' ''_olymp'' ''_country'' ex_fact ex_ref = Inr out \<and>
          length (rows out) = length (rows ex_fact) \<and>
          map (take (length (columns ex_fact))) (rows out) = rows ex_fact)"
proof -
  have a: "''country_id'' \<in> set (columns ex_fact)" by code_simp
  have b: "''country_id'' \<in> set (columns ex_ref)" by code_simp
  have c: "wf_frame ex_fact" by code_simp
  have d: "distinct (map (row_key (columns ex_ref) [''country_id'']) (rows ex_ref))"
    by code_simp
  have e: "merge_left ''country_id'' ''_olymp'' ''_country'' ex_fact ex_ref =
     Inr \<lparr>columns = [''country_id'', ''year'', ''gold'', ''population''],
          rows = [[StrV ''fr'', IntV 2000, IntV 1, IntV 60],
                  [StrV ''xx'', IntV 2000, IntV 4, NaN]]\<rparr>"
    by code_simp
  from join_completeness[OF a b c d, of "''_olymp''" "''_country''"] a b c d e
  show ?thesis by blast
qed

text \<open>
  On a first run the reference batch is persisted with its duplicate tokens, and the join
  returns two rows for the one fact row of that token.
\<close>

theorem join_duplicates_fact_row:
  "upsert_parquet ex_ref_dup None [''country_id''] = Inr ex_ref_dup \<and>
   upsert_parquet ex_fact None ex_keys = Inr ex_fact \<and>
   merge_left ''country_id'' ''_olymp'' ''_country'' ex_fact ex_ref_dup =
     Inr \<lparr>columns = [''country_id'', ''year'', ''gold'', ''population''],
          rows = [[StrV ''fr'', IntV 2000, IntV 1, IntV 60],
                  [StrV ''fr'', IntV 2000, IntV 1, IntV 61],
                  [StrV ''xx'', IntV 2000, IntV 4, NaN]]\<rparr> \<and>
   length (rows ex_fact) = 2"
  by code_simp

section \<open>Properties of the column operations\<close>

lemma get_cell_absent: "c \<notin> set cols \<Longrightarrow> get_cell cols r c = NaN"
proof -
  assume "c \<notin> set cols"
  then have "map_of (zip cols r) c = None"
    by (auto simp: map_of_eq_None_iff dest: set_zip_leftD)
  then show ?thesis by (simp add: get_cell_def)
qed

lemma get_cell_update:
  "length r = length cols \<Longrightarrow>
   get_cell cols (map2 (\<lambda>n x. if n = c then v else x) cols r) c' =
     (if c' = c \<and> c \<in> set cols then v else get_cell cols r c')"
proof (induction cols arbitrary: r)
  case Nil
  then show ?case by (simp add: get_cell_def)
next
  case (Cons a cols)
  then obtain x xs where r: "r = x # xs" and len: "length xs = length cols"
    by (cases r) auto
  show ?case using Cons.IH[OF len] by (auto simp: r get_cell_Cons)
qed

lemma get_cell_append:
  "length r = length cols \<Longrightarrow>
   get_cell (cols @ [c]) (r @ [v]) c' =
     (if c' \<in> set cols then get_cell cols r c' else if c' = c then v else NaN)"
proof (induction cols arbitrary: r)
  case Nil
  then show ?case by (simp add: get_cell_def)
next
  case (Cons a cols)
  then obtain x xs where r: "r = x # xs" and len: "length xs = length cols"
    by (cases r) auto
  show ?case using Cons.IH[OF len] by (auto simp: r get_cell_Cons)
qed

lemma get_cell_rename:
  "\<forall>x \<in> set cols. g x = c \<longleftrightarrow> x = c \<Longrightarrow> get_cell (map g cols) r c = get_cell cols r c"
proof (induction cols arbitrary: r)
  case Nil
  then show ?case by (simp add: get_cell_def)
next
  case (Cons a cols)
  show ?case
  proof (cases r)
    case Nil
    then show ?thesis by (simp add: get_cell_def)
  next
    case (Cons x xs)
    with Cons.IH[of xs] Cons.prems show ?thesis by (auto simp: get_cell_Cons)
  qed
qed

lemma shapedD: "shaped df \<Longrightarrow> i < length (rows df) \<Longrightarrow> length (rows df ! i) = length (columns df)"
  by (simp add: shaped_def list_all_length)

lemma shapedI: "(\<And>i. i < length (rows df) \<Longrightarrow> length (rows df ! i) = length (columns df)) \<Longrightarrow> shaped df"
  by (simp add: shaped_def list_all_length)

lemma wf_frame_shaped: "wf_frame df \<Longrightarrow> shaped df"
  by (simp add: wf_frame_def shaped_def)

lemma set_column_length:
  "length vs = length (rows df) \<Longrightarrow> length (rows (set_column c vs df)) = length (rows df)"
  by (simp add: set_column_def)

lemma set_column_columns:
  "set (columns (set_column c vs df)) = insert c (set (columns df))"
  by (auto simp: set_column_def)

lemma set_column_shaped:
  assumes "length vs = length (rows df)" and "shaped df"
  shows "shaped (set_column c vs df)"
proof (rule shapedI)
  fix i assume "i < length (rows (set_column c vs df))"
  then have i: "i < length (rows df)" using assms(1) by (simp add: set_column_length)
  from shapedD[OF assms(2) i] i assms(1)
  show "length (rows (set_column c vs df) ! i) = length (columns (set_column c vs df))"
    by (auto simp: set_column_def)
qed

lemma set_column_cell:
  assumes len: "length vs = length (rows df)" and sh: "shaped df" and i: "i < length (rows df)"
  shows "cell_at (set_column c vs df) i c' = (if c' = c then vs ! i else cell_at df i c')"
proof -
  have l: "length (rows df ! i) = length (columns df)" using sh i by (rule shapedD)
  show ?thesis
  proof (cases "c \<in> set (columns df)")
    case True
    then show ?thesis using len i get_cell_update[OF l, of c "vs ! i" c']
      by (simp add: cell_at_def set_column_def)
  next
    case False
    then show ?thesis using len i get_cell_append[OF l, of c "vs ! i" c']
      by (auto simp: cell_at_def set_column_def get_cell_absent)
  qed
qed

lemma set_scalar_length: "length (rows (set_scalar c v df)) = length (rows df)"
  by (simp add: set_scalar_def set_column_length)

lemma set_scalar_shaped: "shaped df \<Longrightarrow> shaped (set_scalar c v df)"
  by (simp add: set_scalar_def set_column_shaped)

lemma set_scalar_cell:
  "shaped df \<Longrightarrow> i < length (rows df) \<Longrightarrow>
   cell_at (set_scalar c v df) i c' = (if c' = c then v else cell_at df i c')"
  by (simp add: set_scalar_def set_column_cell)

lemma set_scalar_columns: "set (columns (set_scalar c v df)) = insert c (set (columns df))"
  by (simp add: set_scalar_def set_column_columns)


lemma coerce_column_shaped: "shaped df \<Longrightarrow> shaped (coerce_column L col df)"
  by (simp add: coerce_column_def set_column_shaped get_column_def)

lemma coerce_column_columns:
  "col \<in> set (columns df) \<Longrightarrow> columns (coerce_column L col df) = columns df"
  by (simp add: coerce_column_def set_column_def)



lemma keeps_refl: "shaped df \<Longrightarrow> keeps C df df"
  by (simp add: keeps_def)

lemma keeps_trans: "keeps C1 a b \<Longrightarrow> keeps C2 b c \<Longrightarrow> keeps (C1 \<union> C2) a c"
  by (simp add: keeps_def)

lemma keeps_mono: "keeps C a b \<Longrightarrow> C \<subseteq> D \<Longrightarrow> keeps D a b"
  by (auto simp: keeps_def)

lemma keeps_set_column:
  "length vs = length (rows df) \<Longrightarrow> shaped df \<Longrightarrow> keeps {c} df (set_column c vs df)"
  by (simp add: keeps_def set_column_length set_column_shaped set_column_cell)

lemma keeps_set_scalar: "shaped df \<Longrightarrow> keeps {c} df (set_scalar c v df)"
  by (simp add: set_scalar_def keeps_set_column)

lemma keeps_coerce_column: "shaped df \<Longrightarrow> keeps {col} df (coerce_column L col df)"
  by (simp add: coerce_column_def keeps_set_column get_column_def)

lemma rename_columns_shaped: "shaped df \<Longrightarrow> shaped (rename_columns g df)"
  by (simp add: shaped_def rename_columns_def)

lemma keeps_rename:
  assumes "shaped df"
  shows "keeps {a, ''country''} df (rename_columns (\<lambda>x. if x = a then ''country'' else x) df)"
proof -
  have "get_cell (map (\<lambda>x. if x = a then ''country'' else x) (columns df)) r c =
        get_cell (columns df) r c" if "c \<noteq> a" and "c \<noteq> ''country''" for r c
    by (rule get_cell_rename) (use that in auto)
  then show ?thesis
    using rename_columns_shaped[OF assms]
    by (simp add: keeps_def cell_at_def rename_columns_def)
qed

lemma keeps_rename_first_alias:
  "shaped df \<Longrightarrow> keeps (set aliases \<union> {''country''}) df (rename_first_alias aliases df)"
proof (induction aliases)
  case Nil
  then show ?case by (simp add: keeps_refl)
next
  case (Cons a aliases)
  show ?case
  proof (cases "a \<in> set (columns df)")
    case True
    then show ?thesis using keeps_rename[OF Cons.prems, of a]
      by (auto intro: keeps_mono)
  next
    case False
    then show ?thesis using Cons.IH[OF Cons.prems]
      by (auto intro: keeps_mono)
  qed
qed

lemma rename_first_alias_columns:
  "c \<in> set (columns df) \<Longrightarrow> c \<notin> set aliases \<Longrightarrow>
   c \<in> set (columns (rename_first_alias aliases df))"
  by (induction aliases) (auto simp: rename_columns_def)

lemma keeps_unify_country:
  assumes "shaped df"
  shows "keeps (set aliases \<union> {''country''}) df (unify_country aliases df)"
proof -
  let ?d = "rename_first_alias aliases df"
  have k: "keeps (set aliases \<union> {''country''}) df ?d"
    using assms by (rule keeps_rename_first_alias)
  then have "shaped ?d" by (simp add: keeps_def)
  then have "keeps {''country''} ?d (set_scalar ''country'' NoneV ?d)"
    by (rule keeps_set_scalar)
  with k have "keeps (set aliases \<union> {''country''}) df (set_scalar ''country'' NoneV ?d)"
    using keeps_trans by fastforce
  with k show ?thesis by (simp add: unify_country_def Let_def)
qed

lemma unify_country_has_country:
  "''country'' \<in> set (columns (unify_country aliases df))"
  by (auto simp: unify_country_def Let_def set_scalar_columns)

lemma unify_country_columns:
  "c \<in> set (columns df) \<Longrightarrow> c \<notin> set aliases \<Longrightarrow> c \<in> set (columns (unify_country aliases df))"
  by (auto simp: unify_country_def Let_def set_scalar_columns rename_first_alias_columns)

lemma keeps_coerce_medals:
  "shaped df \<Longrightarrow> coerce_medals L ms df = Inr df' \<Longrightarrow>
   keeps (set ms) df df' \<and> columns df' = columns df"
proof (induction ms arbitrary: df)
  case Nil
  then show ?case by (simp add: keeps_refl)
next
  case (Cons m ms)
  show ?case
  proof (cases "m \<in> set (columns df)")
    case True
    with Cons.prems(2) have r: "coerce_medals L ms (coerce_column L m df) = Inr df'"
      by (simp split: if_splits)
    have k1: "keeps {m} df (coerce_column L m df)"
      using Cons.prems(1) by (rule keeps_coerce_column)
    then have "shaped (coerce_column L m df)" by (simp add: keeps_def)
    from Cons.IH[OF this r] keeps_trans[OF k1] True show ?thesis
      by (simp add: coerce_column_columns)
  next
    case False
    with Cons.prems(2) have r: "coerce_medals L ms df = Inr df'" by simp
    from Cons.IH[OF Cons.prems(1) r] show ?thesis by (auto intro: keeps_mono)
  qed
qed

lemma keeps_assign_country_id:
  assumes "shaped df" and "assign_country_id L df = Inr df'"
  shows "keeps {''country_id''} df df'" and "set (columns df') = insert ''country_id'' (set (columns df))"
proof -
  from assms(2) have df': "df' = set_column ''country_id''
      (map (\<lambda>c. StrV (country_id_from_name L (StrV (py_str L c)))) (get_column ''country'' df)) df"
    by (simp add: assign_country_id_def split: if_splits)
  show "keeps {''country_id''} df df'"
    unfolding df' using assms(1) by (intro keeps_set_column) (simp_all add: get_column_def)
  show "set (columns df') = insert ''country_id'' (set (columns df))"
    unfolding df' by (rule set_column_columns)
qed

lemma normalize_columns_shaped: "shaped df \<Longrightarrow> shaped (normalize_columns df)"
  by (simp add: normalize_columns_def rename_columns_shaped)

lemma normalize_columns_rows: "rows (normalize_columns df) = rows df"
  by (simp add: normalize_columns_def rename_columns_def)

text \<open>
  What the loop body of \<^verbatim>\<open>read_olympics_files\<close> returns for a file: one row per
  row read, each with the file's name and the file's period in its provenance columns.
\<close>

lemma olympics_frame_stamped:
  assumes sh: "shaped raw" and ok: "olympics_frame L (name, raw) = Inr df"
  shows "length (rows df) = length (rows raw)" and "shaped df"
    and "\<And>i. i < length (rows raw) \<Longrightarrow> cell_at df i ''year'' = year_of_name name"
    and "\<And>i. i < length (rows raw) \<Longrightarrow> cell_at df i ''source_file'' = StrV name"
    and "{''source_file'', ''year'', ''country'', ''country_id''} \<subseteq> set (columns df)"
proof -
  let ?d0 = "normalize_columns raw"
  let ?d1 = "set_scalar ''source_file'' (StrV name) ?d0"
  let ?d2 = "set_scalar ''year'' (year_of_name name) ?d1"
  let ?d3 = "unify_country olympics_aliases ?d2"
  let ?C = "set olympics_aliases \<union> {''country''} \<union> set medal_columns \<union> {''country_id''}"
  from ok obtain d4 where m: "coerce_medals L medal_columns ?d3 = Inr d4"
    and a: "assign_country_id L d4 = Inr df"
    by (auto simp: olympics_frame_def Let_def split: sum.splits)
  have s0: "shaped ?d0" using sh by (rule normalize_columns_shaped)
  have s1: "shaped ?d1" using s0 by (rule set_scalar_shaped)
  have s2: "shaped ?d2" using s1 by (rule set_scalar_shaped)
  have l2: "length (rows ?d2) = length (rows raw)"
    by (simp add: set_scalar_length normalize_columns_rows)
  have k3: "keeps (set olympics_aliases \<union> {''country''}) ?d2 ?d3"
    using s2 by (rule keeps_unify_country)
  then have s3: "shaped ?d3" by (simp add: keeps_def)
  have k4: "keeps (set medal_columns) ?d3 d4" and c4: "columns d4 = columns ?d3"
    using keeps_coerce_medals[OF s3 m] by simp_all
  then have s4: "shaped d4" by (simp add: keeps_def)
  have k5: "keeps {''country_id''} d4 df" using s4 a by (rule keeps_assign_country_id)
  have k: "keeps ?C ?d2 df"
    using keeps_trans[OF keeps_trans[OF k3 k4] k5] by simp
  show "length (rows df) = length (rows raw)" using k l2 by (simp add: keeps_def)
  show "shaped df" using k by (simp add: keeps_def)
  have y: "''year'' \<notin> ?C" and f: "''source_file'' \<notin> ?C"
    by (simp_all add: olympics_aliases_def medal_columns_def)
  have c2: "\<And>i. i < length (rows ?d1) \<Longrightarrow>
      cell_at ?d2 i ''year'' = year_of_name name \<and> cell_at ?d2 i ''source_file'' = StrV name"
    using s0 s1 by (simp add: set_scalar_cell set_scalar_length)
  have l1: "length (rows ?d1) = length (rows raw)"
    by (simp add: set_scalar_length normalize_columns_rows)
  show "cell_at df i ''year'' = year_of_name name" if "i < length (rows raw)" for i
    using k y that l2 c2[of i] l1 unfolding keeps_def by metis
  show "cell_at df i ''source_file'' = StrV name" if "i < length (rows raw)" for i
    using k f that l2 c2[of i] l1 unfolding keeps_def by metis
  have "{''source_file'', ''year''} \<subseteq> set (columns ?d2)"
    by (simp add: set_scalar_columns)
  then have "{''source_file'', ''year'', ''country''} \<subseteq> set (columns ?d3)"
    using unify_country_has_country[of olympics_aliases ?d2]
      unify_country_columns[of "''source_file''" ?d2 olympics_aliases]
      unify_country_columns[of "''year''" ?d2 olympics_aliases]
    by (simp add: olympics_aliases_def)
  then have "{''source_file'', ''year'', ''country''} \<subseteq> set (columns d4)"
    by (simp only: c4)
  with keeps_assign_country_id(2)[OF s4 a]
  show "{''source_file'', ''year'', ''country'', ''country_id''} \<subseteq> set (columns df)"
    by auto
qed

section \<open>Provenance\<close>

lemma search_digits4_hit:
  "4 \<le> length (c # cs) \<Longrightarrow> list_all is_digit (take 4 (c # cs)) \<Longrightarrow>
   search_digits4 (c # cs) = Some (take 4 (c # cs))"
  by (simp only: search_digits4.simps simp_thms if_True)

lemma search_digits4_skip:
  "\<not> (4 \<le> length (c # cs) \<and> list_all is_digit (take 4 (c # cs))) \<Longrightarrow>
   search_digits4 (c # cs) = search_digits4 cs"
  by (simp only: search_digits4.simps simp_thms if_False)

lemma search_digits4_first:
  assumes "length ds = 4" and "list_all is_digit ds"
    and "\<forall>i < length pre. \<not> list_all is_digit (take 4 (drop i (pre @ ds @ post)))"
  shows "search_digits4 (pre @ ds @ post) = Some ds"
  using assms(3)
proof (induction pre)
  case Nil
  from assms(1) obtain c cs where ds: "ds @ post = c # cs" by (cases ds) auto
  have t: "take 4 (ds @ post) = ds" using assms(1) by simp
  have "4 \<le> length (ds @ post)" using assms(1) by simp
  then have "search_digits4 (ds @ post) = Some (take 4 (ds @ post))"
    unfolding ds by (rule search_digits4_hit) (use t assms(2) ds in metis)
  then show ?case by (simp only: t append_Nil)
next
  case (Cons p pre)
  have "0 < length (p # pre)" by simp
  with Cons.prems have "\<not> list_all is_digit (take 4 (drop 0 ((p # pre) @ ds @ post)))"
    by blast
  then have 0: "\<not> list_all is_digit (take 4 (p # (pre @ ds @ post)))" unfolding drop_0 append_Cons .
  have "\<forall>i < length pre. \<not> list_all is_digit (take 4 (drop i (pre @ ds @ post)))"
  proof (intro allI impI)
    fix i assume "i < length pre"
    then have "Suc i < length (p # pre)" by simp
    with Cons.prems have "\<not> list_all is_digit (take 4 (drop (Suc i) ((p # pre) @ ds @ post)))"
      by blast
    then show "\<not> list_all is_digit (take 4 (drop i (pre @ ds @ post)))" by simp
  qed
  from Cons.IH[OF this] search_digits4_skip[of p "pre @ ds @ post"] 0 show ?case
    by (simp only: append_Cons simp_thms)
qed

lemma search_digits4_none:
  "\<forall>i. i + 4 \<le> length s \<longrightarrow> \<not> list_all is_digit (take 4 (drop i s)) \<Longrightarrow>
   search_digits4 s = None"
proof (induction s)
  case Nil
  show ?case by simp
next
  case (Cons c cs)
  from Cons.prems[rule_format, of 0]
  have 0: "\<not> (4 \<le> length (c # cs) \<and> list_all is_digit (take 4 (c # cs)))"
    by (simp only: drop_0 add_0) blast
  have "\<forall>i. i + 4 \<le> length cs \<longrightarrow> \<not> list_all is_digit (take 4 (drop i cs))"
  proof (intro allI impI)
    fix i assume "i + 4 \<le> length cs"
    then have "Suc i + 4 \<le> length (c # cs)" by simp
    with Cons.prems have "\<not> list_all is_digit (take 4 (drop (Suc i) (c # cs)))" by blast
    then show "\<not> list_all is_digit (take 4 (drop i cs))" by simp
  qed
  from Cons.IH[OF this] search_digits4_skip[OF 0] show ?case by simp
qed

text \<open>
  C9. Period provenance. The frame built for a fact file has one row per row read. When
  the file name is \<open>pre @ ds @ post\<close> with \<open>ds\<close> four digits and no four digits in a row
  start earlier, every row has the integer \<open>ds\<close> denotes in its \<^verbatim>\<open>year\<close> column; when
  the name has no four digits in a row, every row has \<^verbatim>\<open>None\<close> there.
\<close>

theorem period_provenance:
  assumes sh: "shaped raw" and ok: "olympics_frame L (name, raw) = Inr df"
  shows "length (rows df) = length (rows raw) \<and>
         (\<forall>pre ds post.
            name = pre @ ds @ post \<and> length ds = 4 \<and> list_all is_digit ds \<and>
            (\<forall>i < length pre. \<not> list_all is_digit (take 4 (drop i name))) \<longrightarrow>
            (\<forall>i < length (rows df). cell_at df i ''year'' = IntV (int (nat_of_digits ds)))) \<and>
         ((\<forall>i. i + 4 \<le> length name \<longrightarrow> \<not> list_all is_digit (take 4 (drop i name))) \<longrightarrow>
            (\<forall>i < length (rows df). cell_at df i ''year'' = NoneV))"
proof (intro conjI allI impI)
  show len: "length (rows df) = length (rows raw)"
    using sh ok by (rule olympics_frame_stamped)
  have year: "cell_at df i ''year'' = year_of_name name" if "i < length (rows df)" for i
    using olympics_frame_stamped(3)[OF sh ok] that len by simp
  {
    fix pre ds post i
    assume h: "name = pre @ ds @ post \<and> length ds = 4 \<and> list_all is_digit ds \<and>
               (\<forall>i < length pre. \<not> list_all is_digit (take 4 (drop i name)))"
      and i: "i < length (rows df)"
    from h have "search_digits4 name = Some ds"
      using search_digits4_first[of ds pre post] by blast
    then show "cell_at df i ''year'' = IntV (int (nat_of_digits ds))"
      using year[OF i] by (simp add: year_of_name_def)
  }
  {
    fix i
    assume "\<forall>i. i + 4 \<le> length name \<longrightarrow> \<not> list_all is_digit (take 4 (drop i name))"
      and i: "i < length (rows df)"
    then have "search_digits4 name = None" by (intro search_digits4_none)
    then show "cell_at df i ''year'' = NoneV"
      using year[OF i] by (simp add: year_of_name_def)
  }
qed

theorem period_provenance_witness:
  "shaped ex_raw \<and>
   olympics_frame ex_lib (''results_2000.csv'', ex_raw) =
     Inr \<lparr>columns = [''country'', ''gold'', ''source_file'', ''year'', ''country_id''],
          rows = [[StrV ''France'', IntV 1234, StrV ''results_2000.csv'', IntV 2000, StrV ''france''],
                  [NaN, NaN, StrV ''results_2000.csv'', IntV 2000, StrV ''nan'']]\<rparr> \<and>
   cell_at \<lparr>columns = [''country'', ''gold'', ''source_file'', ''year'', ''country_id''],
          rows = [[StrV ''France'', IntV 1234, StrV ''results_2000.csv'', IntV 2000, StrV ''france''],
                  [NaN, NaN, StrV ''results_2000.csv'', IntV 2000, StrV ''nan'']]\<rparr> 1 ''year'' =
     IntV (int (nat_of_digits ''2000'')) \<and>
   nat_of_digits ''2000'' = 2000 \<and>
   olympics_frame ex_lib (''results.csv'', ex_raw) =
     Inr \<lparr>columns = [''country'', ''gold'', ''source_file'', ''year'', ''country_id''],
          rows = [[StrV ''France'', IntV 1234, StrV ''results.csv'', NoneV, StrV ''france''],
                  [NaN, NaN, StrV ''results.csv'', NoneV, StrV ''nan'']]\<rparr> \<and>
   cell_at \<lparr>columns = [''country'', ''gold'', ''source_file'', ''year'', ''country_id''],
          rows = [[StrV ''France'', IntV 1234, StrV ''results.csv'', NoneV, StrV ''france''],
                  [NaN, NaN, StrV ''results.csv'', NoneV, StrV ''nan'']]\<rparr> 1 ''year'' = NoneV"
proof -
  let ?A = "\<lparr>columns = [''country'', ''gold'', ''source_file'', ''year'', ''country_id''],
          rows = [[StrV ''France'', IntV 1234, StrV ''results_2000.csv'', IntV 2000, StrV ''france''],
                  [NaN, NaN, StrV ''results_2000.csv'', IntV 2000, StrV ''nan'']]\<rparr>"
  let ?B = "\<lparr>columns = [''country'', ''gold'', ''source_file'', ''year'', ''country_id''],
          rows = [[StrV ''France'', IntV 1234, StrV ''results.csv'', NoneV, StrV ''france''],
                  [NaN, NaN, StrV ''results.csv'', NoneV, StrV ''nan'']]\<rparr>"
  have s: "shaped ex_raw" by code_simp
  have a: "olympics_frame ex_lib (''results_2000.csv'', ex_raw) = Inr ?A" by code_simp
  have b: "olympics_frame ex_lib (''results.csv'', ex_raw) = Inr ?B" by code_simp
  have n: "nat_of_digits ''2000'' = 2000" by code_simp
  have split: "''results_2000.csv'' = ''results_'' @ ''2000'' @ ''.csv'' \<and> length ''2000'' = 4 \<and>
      list_all is_digit ''2000''" by code_simp
  have "\<forall>i \<in> {0..<8}. \<not> list_all is_digit (take 4 (drop i ''results_2000.csv''))"
    by code_simp
  then have early: "\<forall>i < length ''results_''. \<not> list_all is_digit (take 4 (drop i ''results_2000.csv''))"
    by simp
  have "\<forall>i \<in> {0..<8}. \<not> list_all is_digit (take 4 (drop i ''results.csv''))"
    by code_simp
  then have none: "\<forall>i. i + 4 \<le> length ''results.csv'' \<longrightarrow>
      \<not> list_all is_digit (take 4 (drop i ''results.csv''))"
    by simp
  have l1: "(1::nat) < length (rows ?A)" and l2: "(1::nat) < length (rows ?B)" by simp_all
  from period_provenance[OF s a] split early l1
  have 1: "cell_at ?A 1 ''year'' = IntV (int (nat_of_digits ''2000''))" by blast
  from period_provenance[OF s b] none l2
  have 2: "cell_at ?B 1 ''year'' = NoneV" by blast
  from s a b n 1 2 show ?thesis by blast
qed

section \<open>Alias unification\<close>

lemma rename_first_alias_hit:
  "set pre \<inter> set (columns df) = {} \<Longrightarrow> a \<in> set (columns df) \<Longrightarrow>
   rename_first_alias (pre @ a # post) df =
     rename_columns (\<lambda>x. if x = a then ''country'' else x) df"
  by (induction pre) auto

lemma rename_first_alias_miss:
  "set aliases \<inter> set (columns df) = {} \<Longrightarrow> rename_first_alias aliases df = df"
  by (induction aliases) auto

lemma distinct_count_one:
  "distinct xs \<Longrightarrow> a \<in> set xs \<Longrightarrow> length (filter (\<lambda>x. x = a) xs) = 1"
proof (induction xs)
  case Nil
  then show ?case by simp
next
  case (Cons x xs)
  show ?case
  proof (cases "x = a")
    case True
    with Cons.prems have "filter (\<lambda>x. x = a) xs = []" by (auto simp: filter_empty_conv)
    with True show ?thesis by simp
  next
    case False
    with Cons show ?thesis by simp
  qed
qed

lemma map2_replicate:
  "map2 f (replicate (length xs) v) xs = map (f v) xs"
  by (induction xs) simp_all

lemma set_scalar_new:
  "c \<notin> set (columns df) \<Longrightarrow>
   set_scalar c v df = df\<lparr>columns := columns df @ [c], rows := map (\<lambda>r. r @ [v]) (rows df)\<rparr>"
  by (simp add: set_scalar_def set_column_def map2_replicate)

text \<open>
  C8, as the code has it. Let \<open>a\<close> be the first alias of the list that is a column of the
  frame. Then the frame keeps its rows and its labels but for \<open>a\<close>, which becomes
  \<^verbatim>\<open>country\<close>: no column is dropped, every other column, the other aliases included,
  stays under its own label. When the labels are distinct and \<open>a\<close> is \<^verbatim>\<open>country\<close>
  itself or the frame has no \<^verbatim>\<open>country\<close> column, exactly one column is labelled
  \<^verbatim>\<open>country\<close>. A frame with no alias column gets a last column \<^verbatim>\<open>country\<close> of
  \<^verbatim>\<open>None\<close> cells.
\<close>

theorem alias_unification:
  assumes "''country'' \<in> set aliases"
  shows "(\<forall>pre a post.
            aliases = pre @ a # post \<and> set pre \<inter> set (columns df) = {} \<and>
            a \<in> set (columns df) \<longrightarrow>
            unify_country aliases df =
              df\<lparr>columns := map (\<lambda>x. if x = a then ''country'' else x) (columns df)\<rparr> \<and>
            (\<forall>b \<in> set (columns df). b \<noteq> a \<longrightarrow> b \<in> set (columns (unify_country aliases df))) \<and>
            (distinct (columns df) \<and> (a = ''country'' \<or> ''country'' \<notin> set (columns df)) \<longrightarrow>
               length (filter (\<lambda>c. c = ''country'') (columns (unify_country aliases df))) = 1)) \<and>
         (set aliases \<inter> set (columns df) = {} \<longrightarrow>
            unify_country aliases df =
              df\<lparr>columns := columns df @ [''country''],
                 rows := map (\<lambda>r. r @ [NoneV]) (rows df)\<rparr>)"
proof (intro conjI allI impI)
  fix pre a post
  assume h: "aliases = pre @ a # post \<and> set pre \<inter> set (columns df) = {} \<and>
             a \<in> set (columns df)"
  let ?g = "\<lambda>x. if x = a then ''country'' else x"
  from h have r: "rename_first_alias aliases df = rename_columns ?g df"
    using rename_first_alias_hit[of pre df a post] by blast
  have "''country'' \<in> set (map ?g (columns df))" using h by force
  then show u: "unify_country aliases df = df\<lparr>columns := map ?g (columns df)\<rparr>"
    by (simp add: unify_country_def r rename_columns_def)
  show "\<forall>b \<in> set (columns df). b \<noteq> a \<longrightarrow> b \<in> set (columns (unify_country aliases df))"
    unfolding u by force
  assume d: "distinct (columns df) \<and> (a = ''country'' \<or> ''country'' \<notin> set (columns df))"
  have "filter (\<lambda>x. ?g x = ''country'') (columns df) = filter (\<lambda>x. x = a) (columns df)"
    using d by (intro filter_cong) auto
  then have "length (filter (\<lambda>c. c = ''country'') (map ?g (columns df))) =
             length (filter (\<lambda>x. x = a) (columns df))"
    by (simp add: filter_map comp_def)
  also have "\<dots> = 1" using h d by (intro distinct_count_one) auto
  finally show "length (filter (\<lambda>c. c = ''country'') (columns (unify_country aliases df))) = 1"
    unfolding u by simp
next
  assume n: "set aliases \<inter> set (columns df) = {}"
  with assms have "''country'' \<notin> set (columns df)" by auto
  then show "unify_country aliases df =
      df\<lparr>columns := columns df @ [''country''], rows := map (\<lambda>r. r @ [NoneV]) (rows df)\<rparr>"
    by (simp add: unify_country_def rename_first_alias_miss[OF n] set_scalar_new)
qed

theorem alias_unification_witness:
  "''country'' \<in> set olympics_aliases \<and>
   olympics_aliases = [] @ ''nation'' # [''country'', ''team''] \<and>
   unify_country olympics_aliases
     \<lparr>columns = [''nation'', ''team'', ''gold''], rows = [[StrV ''France'', StrV ''FRA'', IntV 3]]\<rparr> =
     \<lparr>columns = [''country'', ''team'', ''gold''], rows = [[StrV ''France'', StrV ''FRA'', IntV 3]]\<rparr> \<and>
   length (filter (\<lambda>c. c = ''country'') (columns (unify_country olympics_aliases
     \<lparr>columns = [''nation'', ''team'', ''gold''],
      rows = [[StrV ''France'', StrV ''FRA'', IntV 3]]\<rparr>))) = 1 \<and>
   ''country'' \<in> set countries_aliases \<and>
   unify_country countries_aliases \<lparr>columns = [''region''], rows = [[StrV ''EU'']]\<rparr> =
     \<lparr>columns = [''region'', ''country''], rows = [[StrV ''EU'', NoneV]]\<rparr>"
proof -
  let ?f = "\<lparr>columns = [''nation'', ''team'', ''gold''], rows = [[StrV ''France'', StrV ''FRA'', IntV 3]]\<rparr>"
  let ?r = "\<lparr>columns = [''region''], rows = [[StrV ''EU'']]\<rparr>"
  have a: "''country'' \<in> set olympics_aliases" by code_simp
  have b: "olympics_aliases = [] @ ''nation'' # [''country'', ''team'']" by code_simp
  have c: "set [] \<inter> set (columns ?f) = {} \<and> ''nation'' \<in> set (columns ?f)"
    by simp
  have c': "distinct (columns ?f) \<and> (''nation'' = ''country'' \<or> ''country'' \<notin> set (columns ?f))"
    by simp
  from alias_unification[OF a, of ?f] b c c'
  have 1: "unify_country olympics_aliases ?f =
      ?f\<lparr>columns := map (\<lambda>x. if x = ''nation'' then ''country'' else x) (columns ?f)\<rparr> \<and>
      length (filter (\<lambda>c. c = ''country'') (columns (unify_country olympics_aliases ?f))) = 1"
    by blast
  have d: "''country'' \<in> set countries_aliases" by code_simp
  have e: "set countries_aliases \<inter> set (columns ?r) = {}" by (simp add: countries_aliases_def)
  from alias_unification[OF d, of ?r] e
  have 2: "unify_country countries_aliases ?r =
      ?r\<lparr>columns := columns ?r @ [''country''], rows := map (\<lambda>r. r @ [NoneV]) (rows ?r)\<rparr>"
    by blast
  from a b d 1 2 show ?thesis by simp
qed

text \<open>
  No alias column is dropped: with \<^verbatim>\<open>nation\<close> and \<^verbatim>\<open>team\<close> the frame keeps
  \<^verbatim>\<open>team\<close>, with \<^verbatim>\<open>country\<close> and \<^verbatim>\<open>name\<close> it keeps \<^verbatim>\<open>name\<close>, and
  with \<^verbatim>\<open>nation\<close> and \<^verbatim>\<open>country\<close> it has two columns labelled
  \<^verbatim>\<open>country\<close>.
\<close>

theorem alias_columns_are_kept:
  "unify_country olympics_aliases
     \<lparr>columns = [''nation'', ''team''], rows = [[StrV ''France'', StrV ''FRA'']]\<rparr> =
     \<lparr>columns = [''country'', ''team''], rows = [[StrV ''France'', StrV ''FRA'']]\<rparr> \<and>
   unify_country countries_aliases
     \<lparr>columns = [''country'', ''name''], rows = [[StrV ''France'', StrV ''FR'']]\<rparr> =
     \<lparr>columns = [''country'', ''name''], rows = [[StrV ''France'', StrV ''FR'']]\<rparr> \<and>
   unify_country olympics_aliases
     \<lparr>columns = [''nation'', ''country''], rows = [[StrV ''France'', StrV ''FR'']]\<rparr> =
     \<lparr>columns = [''country'', ''country''], rows = [[StrV ''France'', StrV ''FR'']]\<rparr>"
  by code_simp

section \<open>Numeric coercion\<close>










section \<open>Identity tokens\<close>

text \<open>
  C5. The function \<^verbatim>\<open>country_id_from_name\<close> gives a missing name the token of the
  empty text, and names that are equal after collapsing whitespace, trimming and
  lower-casing the same token. The pipeline does not give a missing name that token: it
  calls the function on \<^verbatim>\<open>df['country'].astype(str)\<close>, where a missing name is
  already the text \<^verbatim>\<open>nan\<close> or \<^verbatim>\<open>None\<close>, so a row with an empty name cell gets
  the digest of \<^verbatim>\<open>nan\<close> and a row of a file with no name column the digest of
  \<^verbatim>\<open>none\<close>.
\<close>

theorem null_name_token:
  "country_id_from_name L NoneV = md5_hex L [] \<and>
   country_id_from_name L NaN = md5_hex L [] \<and>
   country_id_from_name L (StrV []) = md5_hex L [] \<and>
   (lower (strip (re_sub_ws '' '' a)) = lower (strip (re_sub_ws '' '' b)) \<longrightarrow>
      country_id_from_name L (StrV a) = country_id_from_name L (StrV b)) \<and>
   olympics_frame L (''results_2000.csv'',
       \<lparr>columns = [''Team'', ''Gold''], rows = [[NaN, IntV 3]]\<rparr>) =
     Inr \<lparr>columns = [''country'', ''gold'', ''source_file'', ''year'', ''country_id''],
          rows = [[NaN, IntV 3, StrV ''results_2000.csv'', IntV 2000,
                   StrV (md5_hex L ''nan'')]]\<rparr> \<and>
   olympics_frame L (''results_2000.csv'', \<lparr>columns = [''Gold''], rows = [[IntV 3]]\<rparr>) =
     Inr \<lparr>columns = [''gold'', ''source_file'', ''year'', ''country'', ''country_id''],
          rows = [[IntV 3, StrV ''results_2000.csv'', IntV 2000, NoneV,
                   StrV (md5_hex L ''none'')]]\<rparr> \<and>
   build_countries_table L (Some \<lparr>columns = [''Country''], rows = [[NaN]]\<rparr>) =
     Inr \<lparr>columns = [''country'', ''country_id''],
          rows = [[NaN, StrV (md5_hex L ''nan'')]]\<rparr>"
proof (intro conjI impI)
  show "country_id_from_name L NoneV = md5_hex L []"
    by (simp add: country_id_from_name_def lower_def strip_def)
  show "country_id_from_name L NaN = md5_hex L []"
    by (simp add: country_id_from_name_def lower_def strip_def)
  show "country_id_from_name L (StrV []) = md5_hex L []"
    by (simp add: country_id_from_name_def lower_def strip_def)
  show "country_id_from_name L (StrV a) = country_id_from_name L (StrV b)"
    if "lower (strip (re_sub_ws '' '' a)) = lower (strip (re_sub_ws '' '' b))"
    using that by (simp add: country_id_from_name_def)
  show "olympics_frame L (''results_2000.csv'',
       \<lparr>columns = [''Team'', ''Gold''], rows = [[NaN, IntV 3]]\<rparr>) =
     Inr \<lparr>columns = [''country'', ''gold'', ''source_file'', ''year'', ''country_id''],
          rows = [[NaN, IntV 3, StrV ''results_2000.csv'', IntV 2000,
                   StrV (md5_hex L ''nan'')]]\<rparr>"
    by code_simp
  show "olympics_frame L (''results_2000.csv'', \<lparr>columns = [''Gold''], rows = [[IntV 3]]\<rparr>) =
     Inr \<lparr>columns = [''gold'', ''source_file'', ''year'', ''country'', ''country_id''],
          rows = [[IntV 3, StrV ''results_2000.csv'', IntV 2000, NoneV,
                   StrV (md5_hex L ''none'')]]\<rparr>"
    by code_simp
  show "build_countries_table L (Some \<lparr>columns = [''Country''], rows = [[NaN]]\<rparr>) =
     Inr \<lparr>columns = [''country'', ''country_id''],
          rows = [[NaN, StrV (md5_hex L ''nan'')]]\<rparr>"
    by code_simp
qed

theorem null_name_token_witness:
  "lower (strip (re_sub_ws '' '' ''  United   STATES '')) =
     lower (strip (re_sub_ws '' '' ''united states'')) \<and>
   country_id_from_name ex_lib (StrV ''  United   STATES '') =
     country_id_from_name ex_lib (StrV ''united states'') \<and>
   country_id_from_name ex_lib (StrV ''united states'') = ''united states''"
proof -
  have a: "lower (strip (re_sub_ws '' '' ''  United   STATES '')) =
     lower (strip (re_sub_ws '' '' ''united states''))" by code_simp
  have b: "country_id_from_name ex_lib (StrV ''united states'') = ''united states''"
    by code_simp
  from null_name_token[of ex_lib "''  United   STATES ''" "''united states''"] a b
  show ?thesis by blast
qed

section \<open>The order of the batch\<close>

lemma union_columns_foldl:
  "set (foldl (\<lambda>acc f. acc @ filter (\<lambda>c. c \<notin> set acc) (columns f)) acc fs) =
     set acc \<union> (\<Union>f \<in> set fs. set (columns f))"
  by (induction fs arbitrary: acc) auto

lemma union_columns_set: "set (union_columns fs) = (\<Union>f \<in> set fs. set (columns f))"
  by (simp add: union_columns_def union_columns_foldl)

lemma olympics_frames_all2:
  "olympics_frames L fl = Inr dfs \<Longrightarrow> list_all2 (\<lambda>file df. olympics_frame L file = Inr df) fl dfs"
  by (induction fl arbitrary: dfs) (auto split: sum.splits)

lemma keep_last_last_occurrence:
  "r \<in> set (keep_last k xs) \<Longrightarrow>
   \<exists>p < length xs. xs ! p = r \<and> (\<forall>q. p < q \<and> q < length xs \<longrightarrow> k (xs ! q) \<noteq> k r)"
proof (induction xs)
  case Nil
  then show ?case by simp
next
  case (Cons x xs)
  show ?case
  proof (cases "r \<in> set (keep_last k xs)")
    case True
    from Cons.IH[OF this] obtain p where p: "p < length xs" "xs ! p = r"
      "\<forall>q. p < q \<and> q < length xs \<longrightarrow> k (xs ! q) \<noteq> k r" by blast
    have "\<forall>q. Suc p < q \<and> q < length (x # xs) \<longrightarrow> k ((x # xs) ! q) \<noteq> k r"
    proof (intro allI impI)
      fix q assume q: "Suc p < q \<and> q < length (x # xs)"
      then obtain q' where q': "q = Suc q'" by (cases q) auto
      with q p(3) show "k ((x # xs) ! q) \<noteq> k r" by simp
    qed
    with p(1,2) show ?thesis by (intro exI[of _ "Suc p"]) simp
  next
    case False
    with Cons.prems have rx: "r = x" and nk: "k x \<notin> k ` set xs"
      by (auto split: if_splits)
    have "\<forall>q. 0 < q \<and> q < length (x # xs) \<longrightarrow> k ((x # xs) ! q) \<noteq> k r"
    proof (intro allI impI)
      fix q assume q: "0 < q \<and> q < length (x # xs)"
      then obtain q' where q': "q = Suc q'" by (cases q) auto
      with q have "xs ! q' \<in> set xs" by simp
      then have "k (xs ! q') \<in> k ` set xs" by (rule imageI)
      with nk rx q' show "k ((x # xs) ! q) \<noteq> k r" by auto
    qed
    with rx show ?thesis by (intro exI[of _ 0]) simp
  qed
qed

lemma sorted_concat_replicate:
  "sorted (map fst fl) \<Longrightarrow> sorted (concat (map (\<lambda>f. replicate (g f) (fst f)) fl))"
proof (induction fl)
  case Nil
  show ?case by simp
next
  case (Cons f fl)
  then have "\<forall>y \<in> set (concat (map (\<lambda>f. replicate (g f) (fst f)) fl)). fst f \<le> y"
    by auto
  with Cons show ?case by (auto simp: sorted_append)
qed


lemma frame_sources:
  assumes sh: "shaped raw" and ok: "olympics_frame L (n, raw) = Inr df"
    and U: "''source_file'' \<in> set U"
  shows "map (\<lambda>r. get_cell U r ''source_file'') (reindex U df) =
           replicate (length (rows raw)) (StrV n)"
proof -
  have len: "length (rows df) = length (rows raw)" using sh ok by (rule olympics_frame_stamped)
  have "map (\<lambda>r. get_cell U r ''source_file'') (reindex U df) =
        map (\<lambda>r. get_cell (columns df) r ''source_file'') (rows df)"
    using U by (simp add: reindex_def comp_def get_cell_pad)
  also have "\<dots> = replicate (length (rows raw)) (StrV n)"
  proof (rule nth_equalityI)
    show "length (map (\<lambda>r. get_cell (columns df) r ''source_file'') (rows df)) =
          length (replicate (length (rows raw)) (StrV n))" using len by simp
    fix i assume "i < length (map (\<lambda>r. get_cell (columns df) r ''source_file'') (rows df))"
    then have i: "i < length (rows raw)" using len by simp
    from olympics_frame_stamped(4)[OF sh ok i] i len
    show "map (\<lambda>r. get_cell (columns df) r ''source_file'') (rows df) ! i =
          replicate (length (rows raw)) (StrV n) ! i"
      by (simp add: cell_at_def)
  qed
  finally show ?thesis .
qed

lemma batch_sources:
  assumes "list_all2 (\<lambda>file df. olympics_frame L file = Inr df) fl dfs"
    and "list_all (\<lambda>file. shaped (snd file)) fl" and "''source_file'' \<in> set U"
  shows "map (\<lambda>r. get_cell U r ''source_file'') (concat (map (reindex U) dfs)) =
           map StrV (concat (map (\<lambda>file. replicate (length (rows (snd file))) (fst file)) fl))"
  using assms
proof (induction rule: list_all2_induct)
  case Nil
  show ?case by simp
next
  case (Cons x fl df dfs)
  obtain n raw where f: "x = (n, raw)" by (cases x)
  with Cons.prems have sh: "shaped raw" by simp
  from Cons.hyps(1) f have ok: "olympics_frame L (n, raw) = Inr df" by simp
  from Cons.prems have rest: "list_all (\<lambda>file. shaped (snd file)) fl" by simp
  show ?case
    using frame_sources[OF sh ok Cons.prems(2)] Cons.IH[OF rest Cons.prems(2)]
    by (simp add: f)
qed

text \<open>
  The rows of a batch that has rows carry the names of their files in ascending order, and
  the batch has the provenance and token columns.
\<close>

lemma batch_sorted:
  assumes raws: "list_all (\<lambda>file. shaped (snd file)) files"
    and B: "read_olympics_files L (Some files) = Inr B" and ne: "rows B \<noteq> []"
  shows "\<exists>ns. map (\<lambda>r. get_cell (columns B) r ''source_file'') (rows B) = map StrV ns \<and> sorted ns"
    and "{''source_file'', ''year'', ''country_id''} \<subseteq> set (columns B)"
proof -
  let ?fl = "sort_key fst (glob_csv files)"
  from B ne obtain dfs where dfs: "olympics_frames L ?fl = Inr dfs" and n: "dfs \<noteq> []"
    and Bc: "B = concat_frames dfs"
    by (auto simp: read_olympics_files_def empty_frame_def split: sum.splits if_splits)
  have all2: "list_all2 (\<lambda>file df. olympics_frame L file = Inr df) ?fl dfs"
    using dfs by (rule olympics_frames_all2)
  have "set ?fl \<subseteq> set files" by (auto simp: glob_csv_def)
  with raws have sh: "list_all (\<lambda>file. shaped (snd file)) ?fl"
    by (auto simp: list_all_iff)
  from n obtain d ds where d: "dfs = d # ds" by (cases dfs) auto
  with all2 obtain f fs where f: "?fl = f # fs" and okd: "olympics_frame L f = Inr d"
    by (auto simp: list_all2_Cons2)
  from sh f have "shaped (snd f)" by simp
  with okd have "{''source_file'', ''year'', ''country'', ''country_id''} \<subseteq> set (columns d)"
    using olympics_frame_stamped(5)[of "snd f" L "fst f" d] by simp
  then show cols: "{''source_file'', ''year'', ''country_id''} \<subseteq> set (columns B)"
    unfolding Bc by (auto simp: concat_frames_def union_columns_set d)
  then have src: "''source_file'' \<in> set (union_columns dfs)"
    by (simp add: Bc concat_frames_def)
  have "sorted (map fst ?fl)" by simp
  then have "sorted (concat (map (\<lambda>file. replicate (length (rows (snd file))) (fst file)) ?fl))"
    by (rule sorted_concat_replicate)
  with batch_sources[OF all2 sh src]
  show "\<exists>ns. map (\<lambda>r. get_cell (columns B) r ''source_file'') (rows B) = map StrV ns \<and> sorted ns"
    unfolding Bc concat_frames_def by auto
qed


lemma distinct_key_count_one:
  "distinct (map k xs) \<Longrightarrow> a \<in> k ` set xs \<Longrightarrow> length (filter (\<lambda>x. k x = a) xs) = 1"
proof -
  assume d: "distinct (map k xs)" and a: "a \<in> k ` set xs"
  from a have "filter (\<lambda>x. k x = a) xs \<noteq> []" by (auto simp: filter_empty_conv)
  then have "0 < length (filter (\<lambda>x. k x = a) xs)" by simp
  with filter_key_le_one[OF d, of a] show ?thesis by linarith
qed

text \<open>
  C10, as the code has it. The batch holds the rows of the fact files in ascending order
  of file name. When a persisted fact table exists and two rows of the batch, from the
  files \<open>n1 < n2\<close>, have the key \<open>k\<close>, the table the upsert writes has exactly one row of
  key \<open>k\<close>: it is a row of the batch at or after the row from \<open>n2\<close>, reindexed to the
  columns of the table, and its file name is \<open>n2\<close> or a later one, never \<open>n1\<close>.
\<close>

theorem later_file_wins:
  assumes raws: "list_all (\<lambda>file. shaped (snd file)) files"
    and B: "read_olympics_files L (Some files) = Inr B"
    and R: "upsert_parquet B (Some S) [''country_id'', ''year''] = Inr R"
    and i: "i < length (rows B)" and j: "j < length (rows B)"
    and si: "cell_at B i ''source_file'' = StrV n1"
    and sj: "cell_at B j ''source_file'' = StrV n2"
    and lt: "n1 < n2"
    and ki: "row_key (columns B) [''country_id'', ''year''] (rows B ! i) = k"
    and kj: "row_key (columns B) [''country_id'', ''year''] (rows B ! j) = k"
  shows "(\<forall>p q. p \<le> q \<and> q < length (rows B) \<longrightarrow>
            (\<exists>a b. cell_at B p ''source_file'' = StrV a \<and>
                   cell_at B q ''source_file'' = StrV b \<and> a \<le> b)) \<and>
         length (filter (\<lambda>r. row_key (columns R) [''country_id'', ''year''] r = k) (rows R)) = 1 \<and>
         (\<forall>r \<in> set (rows R). row_key (columns R) [''country_id'', ''year''] r = k \<longrightarrow>
            (\<exists>q n. j \<le> q \<and> q < length (rows B) \<and>
                   r = map (get_cell (columns B) (rows B ! q)) (columns R) \<and>
                   get_cell (columns R) r ''source_file'' = StrV n \<and> n2 \<le> n \<and> n \<noteq> n1))"
proof -
  let ?ks = "[''country_id'', ''year'']"
  let ?C = "concat_frames [S, B]"
  let ?U = "columns ?C"
  let ?K = "row_key ?U ?ks"
  let ?pad = "\<lambda>r. map (get_cell (columns B) r) ?U"
  let ?B' = "map ?pad (rows B)"
  from j have ne: "rows B \<noteq> []" by auto
  from batch_sorted[OF raws B ne] obtain ns
    where ns: "map (\<lambda>r. get_cell (columns B) r ''source_file'') (rows B) = map StrV ns"
      and sorted: "sorted ns"
      and cols: "{''source_file'', ''year'', ''country_id''} \<subseteq> set (columns B)"
    by blast
  from ns have lns: "length ns = length (rows B)" by (metis length_map)
  have src: "cell_at B q ''source_file'' = StrV (ns ! q)" if "q < length (rows B)" for q
  proof -
    from that have "map (\<lambda>r. get_cell (columns B) r ''source_file'') (rows B) ! q =
        get_cell (columns B) (rows B ! q) ''source_file''" by simp
    moreover from that lns have "map StrV ns ! q = StrV (ns ! q)" by simp
    ultimately show ?thesis using ns by (simp add: cell_at_def)
  qed
  have mono: "ns ! p \<le> ns ! q" if "p \<le> q" and "q < length (rows B)" for p q
    using sorted that lns by (simp add: sorted_nth_mono)
  have order: "\<forall>p q. p \<le> q \<and> q < length (rows B) \<longrightarrow>
      (\<exists>a b. cell_at B p ''source_file'' = StrV a \<and> cell_at B q ''source_file'' = StrV b \<and> a \<le> b)"
  proof (intro allI impI)
    fix p q assume h: "p \<le> q \<and> q < length (rows B)"
    then have "p < length (rows B)" by simp
    from src[OF this] src[of q] mono[of p q] h
    show "\<exists>a b. cell_at B p ''source_file'' = StrV a \<and>
                 cell_at B q ''source_file'' = StrV b \<and> a \<le> b"
      by blast
  qed
  have n2: "ns ! j = n2" using src[OF j] sj by simp
  have n1: "ns ! i = n1" using src[OF i] si by simp
  have ksU: "set ?ks \<subseteq> set ?U" and srcU: "''source_file'' \<in> set ?U"
    using cols by (auto simp: concat_two_set)
  have key_pad: "?K (?pad r) = row_key (columns B) ?ks r" for r
    using ksU by (rule row_key_pad)
  have rowsC: "rows ?C = reindex ?U S @ ?B'"
    by (simp add: concat_two_rows reindex_def[of _ B])
  have neC: "rows ?C \<noteq> []" using ne rowsC by simp
  have ncU: "?U \<noteq> []" using srcU by auto
  from R neC ncU ksU have Rdef: "R = ?C\<lparr>rows := keep_last ?K (rows ?C)\<rparr>"
    by (simp add: upsert_parquet_def drop_duplicates_last_def)
  have cR: "columns R = ?U" using Rdef by simp
  have rR: "rows R = filter (\<lambda>r. ?K r \<notin> ?K ` set ?B') (keep_last ?K (reindex ?U S)) @
                    keep_last ?K ?B'"
    using Rdef rowsC by (simp add: keep_last_append)
  have kB: "?K (?B' ! q) = row_key (columns B) ?ks (rows B ! q)" if "q < length (rows B)" for q
    using that by (simp add: key_pad)
  have kin: "k \<in> ?K ` set ?B'"
  proof -
    have "?B' ! j \<in> set ?B'" using j by (intro nth_mem) simp
    then have "?K (?B' ! j) \<in> ?K ` set ?B'" by (rule imageI)
    then show ?thesis using kB[OF j] kj by simp
  qed
  have f1: "filter (\<lambda>r. ?K r = k)
              (filter (\<lambda>r. ?K r \<notin> ?K ` set ?B') (keep_last ?K (reindex ?U S))) = []"
    using kin by (auto simp: filter_empty_conv)
  have "length (filter (\<lambda>r. ?K r = k) (keep_last ?K ?B')) = 1"
    using kin by (intro distinct_key_count_one keep_last_distinct) (simp add: keep_last_keys)
  then have one: "length (filter (\<lambda>r. row_key (columns R) ?ks r = k) (rows R)) = 1"
    unfolding cR rR using f1 by simp
  have winner: "\<forall>r \<in> set (rows R). row_key (columns R) ?ks r = k \<longrightarrow>
      (\<exists>q n. j \<le> q \<and> q < length (rows B) \<and>
             r = map (get_cell (columns B) (rows B ! q)) (columns R) \<and>
             get_cell (columns R) r ''source_file'' = StrV n \<and> n2 \<le> n \<and> n \<noteq> n1)"
  proof (intro ballI impI)
    fix r assume r: "r \<in> set (rows R)" and kr: "row_key (columns R) ?ks r = k"
    from kr have Kr: "?K r = k" by (simp add: cR)
    from r rR Kr kin have "r \<in> set (keep_last ?K ?B')" by auto
    from keep_last_last_occurrence[OF this] obtain p
      where p: "p < length ?B'" and rp: "?B' ! p = r"
        and last: "\<forall>q. p < q \<and> q < length ?B' \<longrightarrow> ?K (?B' ! q) \<noteq> ?K r"
      by blast
    from p have pB: "p < length (rows B)" by simp
    have "\<not> p < j"
    proof
      assume "p < j"
      with last j have "?K (?B' ! j) \<noteq> ?K r" by simp
      with kB[OF j] kj Kr show False by simp
    qed
    then have jp: "j \<le> p" by simp
    have req: "r = map (get_cell (columns B) (rows B ! p)) (columns R)"
      using rp pB by (simp add: cR)
    have "get_cell ?U r ''source_file'' = get_cell (columns B) (rows B ! p) ''source_file''"
      unfolding rp[symmetric] using pB srcU by (simp add: get_cell_pad)
    then have sr: "get_cell (columns R) r ''source_file'' = StrV (ns ! p)"
      using src[OF pB] by (simp add: cR cell_at_def)
    have le: "n2 \<le> ns ! p" using mono[OF jp pB] n2 by simp
    with lt have "ns ! p \<noteq> n1" by auto
    with jp pB req sr le
    show "\<exists>q n. j \<le> q \<and> q < length (rows B) \<and>
             r = map (get_cell (columns B) (rows B ! q)) (columns R) \<and>
             get_cell (columns R) r ''source_file'' = StrV n \<and> n2 \<le> n \<and> n \<noteq> n1"
      by blast
  qed
  from order one winner show ?thesis by blast
qed

theorem later_file_wins_witness:
  "list_all (\<lambda>file. shaped (snd file)) ex_files \<and>
   read_olympics_files ex_lib (Some ex_files) = Inr ex_two \<and>
   upsert_parquet ex_two (Some ex_prior) [''country_id'', ''year''] = Inr ex_written \<and>
   cell_at ex_two 0 ''source_file'' = StrV ''results_2000_a.csv'' \<and>
   cell_at ex_two 1 ''source_file'' = StrV ''results_2000_b.csv'' \<and>
   ''results_2000_a.csv'' < ''results_2000_b.csv'' \<and>
   row_key (columns ex_two) [''country_id'', ''year''] (rows ex_two ! 0) =
     [KStr ''france'', KNum 2000] \<and>
   row_key (columns ex_two) [''country_id'', ''year''] (rows ex_two ! 1) =
     [KStr ''france'', KNum 2000] \<and>
   length (filter (\<lambda>r. row_key (columns ex_written) [''country_id'', ''year''] r =
                        [KStr ''france'', KNum 2000]) (rows ex_written)) = 1 \<and>
   get_cell (columns ex_written) (rows ex_written ! 2) ''source_file'' =
     StrV ''results_2000_b.csv''"
proof -
  have a: "list_all (\<lambda>file. shaped (snd file)) ex_files" by code_simp
  have b: "read_olympics_files ex_lib (Some ex_files) = Inr ex_two" by code_simp
  have c: "upsert_parquet ex_two (Some ex_prior) [''country_id'', ''year''] = Inr ex_written"
    by code_simp
  have i: "0 < length (rows ex_two)" and j: "1 < length (rows ex_two)"
    by (simp_all add: ex_two_def)
  have si: "cell_at ex_two 0 ''source_file'' = StrV ''results_2000_a.csv''" by code_simp
  have sj: "cell_at ex_two 1 ''source_file'' = StrV ''results_2000_b.csv''" by code_simp
  have lt: "''results_2000_a.csv'' < ''results_2000_b.csv''" by code_simp
  have ki: "row_key (columns ex_two) [''country_id'', ''year''] (rows ex_two ! 0) =
     [KStr ''france'', KNum 2000]" by code_simp
  have kj: "row_key (columns ex_two) [''country_id'', ''year''] (rows ex_two ! 1) =
     [KStr ''france'', KNum 2000]" by code_simp
  have w: "get_cell (columns ex_written) (rows ex_written ! 2) ''source_file'' =
     StrV ''results_2000_b.csv''" by code_simp
  from later_file_wins[OF a b c i j si sj lt ki kj]
  have "length (filter (\<lambda>r. row_key (columns ex_written) [''country_id'', ''year''] r =
                        [KStr ''france'', KNum 2000]) (rows ex_written)) = 1"
    by blast
  with a b c si sj lt ki kj w show ?thesis by blast
qed

text \<open>
  On a first run the rows of both files persist: the table written is the batch, with
  the row of the earlier file and the row of the later file under one key.
\<close>

theorem first_run_keeps_both_files:
  "read_olympics_files ex_lib (Some ex_files) = Inr ex_two \<and>
   upsert_parquet ex_two None [''country_id'', ''year''] = Inr ex_two \<and>
   rows ex_two =
     [[StrV ''france'', IntV 2, StrV ''results_2000_a.csv'', IntV 2000, StrV ''france''],
      [StrV ''France'', IntV 1, StrV ''results_2000_b.csv'', IntV 2000, StrV ''france'']] \<and>
   row_key (columns ex_two) [''country_id'', ''year''] (rows ex_two ! 0) =
     row_key (columns ex_two) [''country_id'', ''year''] (rows ex_two ! 1) \<and>
   cell_at ex_two 0 ''source_file'' = StrV ''results_2000_a.csv'' \<and>
   ''results_2000_a.csv'' < ''results_2000_b.csv''"
  by code_simp

end
